theory Spec2Isabelle
  imports Complex_Main "HOL-Library.Word" "HOL-Library.Sublist" "HOL-Library.AList"
begin

unbundle bit_operations_syntax

section \<open>JavaScript strings\<close>

text \<open>
  A JavaScript string is a sequence of UTF-16 code units; \<open>length\<close>, \<open>slice\<close> and
  \<open>charCodeAt\<close> count code units.  ASCII literals of the source are written with \<open>ascii\<close>.
\<close>

type_synonym code_unit = "16 word"
type_synonym jsstring = "code_unit list"

definition ascii :: "string \<Rightarrow> jsstring" where
  "ascii s = map (\<lambda>c. of_nat (of_char c)) s"

text \<open>
  The characters removed by \<open>String.prototype.trim\<close> and matched by \<open>\s\<close>: the
  ECMAScript WhiteSpace and LineTerminator code points.
\<close>

definition isWhitespace :: "code_unit \<Rightarrow> bool" where
  "isWhitespace c \<longleftrightarrow>
     c \<in> {0x0009, 0x000A, 0x000B, 0x000C, 0x000D, 0x0020, 0x00A0, 0x1680,
          0x2000, 0x2001, 0x2002, 0x2003, 0x2004, 0x2005, 0x2006, 0x2007,
          0x2008, 0x2009, 0x200A, 0x2028, 0x2029, 0x202F, 0x205F, 0x3000, 0xFEFF}"

definition trim :: "jsstring \<Rightarrow> jsstring" where
  "trim s = rev (dropWhile isWhitespace (rev (dropWhile isWhitespace s)))"

text \<open>\<open>s.slice(start, end)\<close> for \<open>0 \<le> start\<close> and \<open>0 \<le> end\<close>.\<close>

definition sliceStr :: "'a list \<Rightarrow> nat \<Rightarrow> nat \<Rightarrow> 'a list" where
  "sliceStr s start end = take (end - start) (drop start s)"

text \<open>\<open>String(n)\<close> for a non-negative integer: its decimal digits.\<close>

fun decimal :: "nat \<Rightarrow> string" where
  "decimal n =
     (if n < 10 then [char_of (48 + n)]
      else decimal (n div 10) @ [char_of (48 + n mod 10)])"

declare decimal.simps [simp del]

section \<open>Text normalizer and chunker\<close>

text \<open>
  \<open>s.replace(/[X]{k,}/g, r)\<close> for a character class \<open>X\<close> (given as the predicate
  \<open>P\<close>): every maximal run of at least \<open>k\<close> characters of the class is replaced by
  \<open>r\<close>; shorter runs and all other characters are kept.
\<close>

function replaceRuns :: "nat \<Rightarrow> ('a \<Rightarrow> bool) \<Rightarrow> 'a list \<Rightarrow> 'a list \<Rightarrow> 'a list" where
  "replaceRuns k P r [] = []"
| "replaceRuns k P r (c # cs) =
     (if P c then
        (if k \<le> length (takeWhile P (c # cs)) then r else takeWhile P (c # cs))
          @ replaceRuns k P r (dropWhile P cs)
      else c # replaceRuns k P r cs)"
  by pat_completeness auto
termination
  by (relation "measure (\<lambda>(k, P, r, s). length s)")
     (auto simp: length_dropWhile_le less_Suc_eq_le)

definition normalizeText :: "jsstring \<Rightarrow> jsstring" where
  "normalizeText input =
     trim
       (replaceRuns 3 (\<lambda>c. c = 0x000A) [0x000A, 0x000A]
         (replaceRuns 2 (\<lambda>c. c = 0x0020) [0x0020]
           (filter (\<lambda>c. c \<noteq> 0x0000)
             (replaceRuns 1 (\<lambda>c. c \<in> {0x0009, 0x000C, 0x000B}) [0x0020]
               (map (\<lambda>c. if c = 0x000D then 0x000A else c) input)))))"

record textChunk =
  chunk_id :: jsstring
  chunk_text :: jsstring
  chunk_start :: nat
  chunk_end :: nat

definition CHUNK_SIZE :: nat where "CHUNK_SIZE = 1600"
definition CHUNK_OVERLAP :: nat where "CHUNK_OVERLAP = 260"

text \<open>
  The \<open>while\<close> loop of \<open>chunkText\<close>, with its variables \<open>chunks\<close>, \<open>index\<close> and
  \<open>start\<close> as arguments.  \<open>end - overlap\<close> is computed on integers, as in the source.
\<close>

function chunkLoop :: "jsstring \<Rightarrow> textChunk list \<Rightarrow> nat \<Rightarrow> nat \<Rightarrow> textChunk list" where
  "chunkLoop text chunks index start =
     (if start < length text then
        (let overlap = min CHUNK_OVERLAP (max 0 (CHUNK_SIZE - 1));
             end = min (length text) (start + CHUNK_SIZE);
             chunkText = trim (sliceStr text start end);
             chunks' = (if chunkText \<noteq> []
                        then chunks @ [\<lparr>chunk_id = ascii ''chunk-'' @ ascii (decimal (index + 1)),
                                        chunk_text = chunkText,
                                        chunk_start = start, chunk_end = end\<rparr>]
                        else chunks);
             index' = (if chunkText \<noteq> [] then index + 1 else index)
         in if length text \<le> end then chunks'
            else chunkLoop text chunks' index'
                   (nat (max (int start + 1) (int end - int overlap))))
      else chunks)"
  by pat_completeness auto
termination
  by (relation "measure (\<lambda>(text, chunks, index, start). length text - start)") auto

declare chunkLoop.simps [simp del]

definition chunkText :: "jsstring \<Rightarrow> textChunk list" where
  "chunkText text = (if text = [] then [] else chunkLoop text [] 0 0)"


subsection \<open>The window grid of the chunker\<close>

text \<open>
  Notions used to state what \<open>chunkText\<close> computes: the distance between the starts
  of two consecutive windows, a window whose trimmed content is empty, and the loop
  invariant of \<open>chunkLoop\<close>.
\<close>

definition stride :: nat where "stride = CHUNK_SIZE - CHUNK_OVERLAP"

definition blankWindow :: "jsstring \<Rightarrow> nat \<Rightarrow> bool" where
  "blankWindow text s \<longleftrightarrow> trim (sliceStr text s (min (length text) (s + CHUNK_SIZE))) = []"

definition window_ok :: "jsstring \<Rightarrow> textChunk \<Rightarrow> bool" where
  "window_ok text c \<longleftrightarrow>
     chunk_text c = trim (sliceStr text (chunk_start c) (chunk_end c)) \<and> chunk_text c \<noteq> [] \<and>
     stride dvd chunk_start c \<and> chunk_start c < length text \<and>
     (chunk_start c = 0 \<or> chunk_start c + CHUNK_OVERLAP < length text) \<and>
     chunk_end c = min (length text) (chunk_start c + CHUNK_SIZE)"

definition ids_ok :: "textChunk list \<Rightarrow> bool" where
  "ids_ok cs \<longleftrightarrow> (\<forall>i<length cs. chunk_id (cs ! i) = ascii ''chunk-'' @ ascii (decimal (i + 1)))"

definition chunks_inv :: "jsstring \<Rightarrow> textChunk list \<Rightarrow> nat \<Rightarrow> bool" where
  "chunks_inv text cs start \<longleftrightarrow>
     ids_ok cs \<and>
     (\<forall>c\<in>set cs. window_ok text c \<and> chunk_start c < start \<and> chunk_start c + CHUNK_SIZE < length text) \<and>
     sorted_wrt (\<lambda>c d. chunk_start c < chunk_start d \<and> chunk_end c < chunk_end d) cs \<and>
     (\<forall>s. s < start \<and> stride dvd s \<and> \<not> blankWindow text s \<longrightarrow> s \<in> chunk_start ` set cs)"

definition chunks_post :: "jsstring \<Rightarrow> textChunk list \<Rightarrow> bool" where
  "chunks_post text cs \<longleftrightarrow>
     ids_ok cs \<and>
     (\<forall>c\<in>set cs. window_ok text c) \<and>
     sorted_wrt (\<lambda>c d. chunk_start c < chunk_start d \<and> chunk_end c < chunk_end d) cs \<and>
     (\<forall>s. (s = 0 \<or> s + CHUNK_OVERLAP < length text) \<and> stride dvd s \<and> \<not> blankWindow text s \<longrightarrow> s \<in> chunk_start ` set cs) \<and>
     (\<not> isWhitespace (last text) \<longrightarrow> cs \<noteq> [] \<and> chunk_end (last cs) = length text)"

text \<open>
  A normalized text of 3002 characters whose middle is blank: the letter \<open>a\<close>, a
  thousand times two line feeds and a space, the letter \<open>b\<close>.
\<close>

definition exampleGapText :: jsstring where
  "exampleGapText = 0x0061 # concat (replicate 1000 [0x000A, 0x000A, 0x0020]) @ [0x0062]"

section \<open>Outline flattening and section page ranges\<close>

text \<open>
  Page numbers and depths are integers: \<open>parseOutlineFromPdfDocument\<close> sets
  \<open>pageNumber = pageIndex + 1\<close> and passes \<open>depth + 1\<close> to the children.  On integers
  \<open>Math.floor\<close> is the identity and \<open>Number.isFinite\<close> holds, so neither appears below.
  An optional field (\<open>pageNumber?\<close>, \<open>url?\<close>) is an \<open>option\<close>.
\<close>

datatype js_error = TypeError | Error jsstring

datatype pdfOutlineNode =
  PdfOutlineNode (node_title: jsstring) (node_pageNumber: "int option")
    (node_url: "jsstring option") (node_children: "pdfOutlineNode list") (node_depth: int)

record flattenedOutlineNode =
  fo_title :: jsstring
  fo_depth :: int
  fo_pageNumber :: "int option"
  fo_url :: "jsstring option"
  fo_path :: jsstring

text \<open>
  \<open>walk(items, parentPath)\<close> of \<open>flattenOutlineWithPath\<close>; \<open>walkItems\<close> is the
  \<open>forEach\<close> over \<open>items\<close> from position \<open>index\<close> on, \<open>walkNode\<close> its body.
\<close>

fun walkNode :: "pdfOutlineNode \<Rightarrow> jsstring \<Rightarrow> nat \<Rightarrow> flattenedOutlineNode list"
  and walkItems :: "pdfOutlineNode list \<Rightarrow> jsstring \<Rightarrow> nat \<Rightarrow> flattenedOutlineNode list" where
  "walkNode (PdfOutlineNode title pageNumber url children depth) parentPath index =
     (let path = (if parentPath \<noteq> [] then parentPath @ ascii ''.'' @ ascii (decimal (index + 1))
                  else ascii (decimal (index + 1)))
      in \<lparr>fo_title = title, fo_depth = depth, fo_pageNumber = pageNumber, fo_url = url,
           fo_path = path\<rparr>
         # (if children \<noteq> [] then walkItems children path 0 else []))"
| "walkItems [] parentPath index = []"
| "walkItems (item # items) parentPath index =
     walkNode item parentPath index @ walkItems items parentPath (index + 1)"

definition flattenOutlineWithPath :: "pdfOutlineNode list \<Rightarrow> flattenedOutlineNode list" where
  "flattenOutlineWithPath nodes = walkItems nodes [] 0"

record sectionPageRange =
  startPageNumber :: "int option"
  endPageNumber :: "int option"

text \<open>
  The \<open>for\<close> loop of \<open>resolveSectionPageRange\<close> over the nodes after the current one:
  the first node at depth at most \<open>depth\<close> with a positive page number sets the end and
  leaves the loop; without one the end is unchanged.
\<close>

fun scanNext :: "flattenedOutlineNode list \<Rightarrow> int \<Rightarrow> int \<Rightarrow> int" where
  "scanNext [] depth endPage = endPage"
| "scanNext (next # rest) depth endPage =
     (case fo_pageNumber next of
        Some q \<Rightarrow> if fo_depth next \<le> depth \<and> 0 < q then q - 1
                  else scanNext rest depth endPage
      | None \<Rightarrow> scanNext rest depth endPage)"

text \<open>
  Reading \<open>flattened[currentIndex]\<close> out of range gives \<open>undefined\<close>, and
  \<open>current.pageNumber\<close> then throws a \<open>TypeError\<close>.
\<close>

definition resolveSectionPageRange ::
    "flattenedOutlineNode list \<Rightarrow> nat \<Rightarrow> int \<Rightarrow> js_error + sectionPageRange" where
  "resolveSectionPageRange flattened currentIndex numPages =
     (if length flattened \<le> currentIndex then Inl TypeError
      else
        (let current = flattened ! currentIndex in
         case fo_pageNumber current of
           None \<Rightarrow> Inr \<lparr>startPageNumber = None, endPageNumber = None\<rparr>
         | Some pageNumber \<Rightarrow>
             if pageNumber \<le> 0 then Inr \<lparr>startPageNumber = None, endPageNumber = None\<rparr>
             else
               (let safeNumPages = (if 0 < numPages then numPages else pageNumber);
                    startPage = max 1 pageNumber;
                    endPage0 = max startPage safeNumPages;
                    endPage1 = scanNext (drop (currentIndex + 1) flattened) (fo_depth current) endPage0;
                    endPage = (if endPage1 < startPage then startPage else endPage1)
                in Inr \<lparr>startPageNumber = Some startPage, endPageNumber = Some endPage\<rparr>)))"

text \<open>
  For the statement of the page-range property: whether a node can end the section of a
  node at depth \<open>d\<close>, and a top-level bookmark without children.
\<close>

definition endsSection :: "int \<Rightarrow> flattenedOutlineNode \<Rightarrow> bool" where
  "endsSection d n \<longleftrightarrow> fo_depth n \<le> d \<and> (case fo_pageNumber n of Some q \<Rightarrow> 0 < q | None \<Rightarrow> False)"

definition bookmarkAt :: "jsstring \<Rightarrow> int \<Rightarrow> pdfOutlineNode" where
  "bookmarkAt title page = PdfOutlineNode title (Some page) None [] 0"

section \<open>The persistent store\<close>

text \<open>
  \<open>hashText\<close>: the running value is kept modulo \<open>2^32\<close> by \<open>^=\<close> (ToInt32), the shifts
  are 32-bit, the sums in between stay below \<open>2^53\<close> and are exact, and \<open>>>> 0\<close> reads
  the result as an unsigned 32-bit number.  The computation is therefore arithmetic on
  32-bit words; a code unit is zero-extended.
\<close>

definition hashStep :: "32 word \<Rightarrow> code_unit \<Rightarrow> 32 word" where
  "hashStep hash c =
     (let h = hash XOR ucast c
      in h + (push_bit 1 h + push_bit 4 h + push_bit 7 h + push_bit 8 h + push_bit 24 h))"

definition hashText :: "jsstring \<Rightarrow> jsstring" where
  "hashText v = ascii (decimal (unat (foldl hashStep 2166136261 v)))"

datatype chatRole = User | Assistant

record chatMessage =
  cm_role :: chatRole
  cm_content :: jsstring
  cm_createdAt :: jsstring

record paperIndex =
  pi_hash :: jsstring
  pi_title :: jsstring
  pi_source :: jsstring
  pi_chunks :: "textChunk list"
  pi_updatedAt :: jsstring

record conversationMemory =
  mem_summary :: jsstring
  mem_updatedAt :: jsstring
  mem_turnCount :: nat

text \<open>
  \<open>chunkHashes\<close> and \<open>vectors\<close> are JavaScript objects used as dictionaries: association
  lists in insertion order, read with \<open>map_of\<close>, written with \<open>AList.update\<close> and
  \<open>AList.delete\<close>.  Numbers in vectors and scores are taken as real numbers.
\<close>

record paperEmbeddings =
  pe_endpoint :: jsstring
  pe_model :: jsstring
  pe_chunkHashes :: "(jsstring \<times> jsstring) list"
  pe_vectors :: "(jsstring \<times> real list) list"
  pe_updatedAt :: jsstring

record paperStore =
  papers :: "jsstring \<rightharpoonup> paperIndex"
  conversations :: "jsstring \<rightharpoonup> chatMessage list"
  memories :: "jsstring \<rightharpoonup> conversationMemory"
  embeddings :: "jsstring \<rightharpoonup> paperEmbeddings"

definition emptyStore :: paperStore where
  "emptyStore = \<lparr>papers = Map.empty, conversations = Map.empty, memories = Map.empty,
                  embeddings = Map.empty\<rparr>"

text \<open>
  The module state: \<open>storeCache\<close> (\<open>None\<close> until the store is first loaded), the
  \<open>indexCache\<close> map, what the store file held when the process started (\<open>None\<close> for a
  missing or unparsable file), the payloads written to the store file in order, and the
  input lists sent to the embedding endpoint in order.  Every operation below runs from its
  call to its return without another operation in between; the store directory is
  available, so \<open>getStorePath\<close> returns, and a failed file write is caught and logged
  inside \<open>persistStore\<close>.
\<close>

record appState =
  storeCache :: "paperStore option"
  indexCache :: "jsstring \<rightharpoonup> paperIndex"
  storeFile :: "paperStore option"
  storeWrites :: "paperStore list"
  embedRequests :: "jsstring list list"

definition initialState :: "paperStore option \<Rightarrow> appState" where
  "initialState file = \<lparr>storeCache = None, indexCache = Map.empty, storeFile = file,
                          storeWrites = [], embedRequests = []\<rparr>"

definition loadStore :: "appState \<Rightarrow> paperStore \<times> appState" where
  "loadStore st =
     (case storeCache st of
        Some store \<Rightarrow> (store, st)
      | None \<Rightarrow>
          (let store = (case storeFile st of None \<Rightarrow> emptyStore | Some parsed \<Rightarrow> parsed)
           in (store, st\<lparr>storeCache := Some store\<rparr>)))"

definition persistStore :: "paperStore \<Rightarrow> appState \<Rightarrow> appState" where
  "persistStore store st = st\<lparr>storeCache := Some store, storeWrites := storeWrites st @ [store]\<rparr>"

section \<open>Retrieval engine\<close>

definition MAX_CONTEXT_CHARS :: nat where "MAX_CONTEXT_CHARS = 12000"
definition EMBEDDING_BATCH_SIZE :: nat where "EMBEDDING_BATCH_SIZE = 12"

text \<open>\<open>xs.slice(0, k)\<close> for an integer \<open>k\<close>: a negative \<open>k\<close> counts from the end.\<close>

definition sliceTo :: "'a list \<Rightarrow> int \<Rightarrow> 'a list" where
  "sliceTo xs k = (if 0 \<le> k then take (nat k) xs else take (length xs - nat (- k)) xs)"

text \<open>
  \<open>s.split(/\s+/)\<close>: the pieces between maximal runs of white space, with an empty
  piece before a leading run and after a trailing one.
\<close>

function splitWhitespace :: "jsstring \<Rightarrow> jsstring list" where
  "splitWhitespace s =
     (let piece = takeWhile (\<lambda>c. \<not> isWhitespace c) s;
          rest = dropWhile (\<lambda>c. \<not> isWhitespace c) s
      in if rest = [] then [piece] else piece # splitWhitespace (dropWhile isWhitespace rest))"
  by pat_completeness auto
termination
proof (relation "measure length")
  fix s :: jsstring and piece rest
  assume rest: "rest = dropWhile (\<lambda>c. \<not> isWhitespace c) s" and ne: "rest \<noteq> []"
  have "isWhitespace (hd rest)"
    using ne hd_dropWhile[of "\<lambda>c. \<not> isWhitespace c" s] by (simp add: rest)
  then have "length (dropWhile isWhitespace rest) < length rest"
    using ne by (cases rest) (auto simp: less_Suc_eq_le length_dropWhile_le)
  moreover have "length rest \<le> length s"
    by (simp add: rest length_dropWhile_le)
  ultimately show "(dropWhile isWhitespace rest, s) \<in> measure length" by simp
qed simp

declare splitWhitespace.simps [simp del]

text \<open>
  The character class kept by \<open>tokenize\<close>: \<open>a-z\<close>, \<open>0-9\<close>, the code units
  U+00C0 to U+024F, U+4E00 to U+9FFF and U+AC00 to U+D7AF, and white space.
\<close>

definition tokenChar :: "code_unit \<Rightarrow> bool" where
  "tokenChar c \<longleftrightarrow>
     (0x0061 \<le> c \<and> c \<le> 0x007A) \<or> (0x0030 \<le> c \<and> c \<le> 0x0039) \<or>
     (0x00C0 \<le> c \<and> c \<le> 0x024F) \<or> (0x4E00 \<le> c \<and> c \<le> 0x9FFF) \<or>
     (0xAC00 \<le> c \<and> c \<le> 0xD7AF) \<or> isWhitespace c"

text \<open>
  \<open>String.prototype.toLowerCase\<close> is a built-in of the platform; the functions that
  tokenize take it as the argument \<open>toLowerCase\<close>.
\<close>

definition tokenize :: "(jsstring \<Rightarrow> jsstring) \<Rightarrow> jsstring \<Rightarrow> jsstring list" where
  "tokenize toLowerCase text =
     filter (\<lambda>token. 1 < length token)
       (splitWhitespace (map (\<lambda>c. if tokenChar c then c else 0x0020) (toLowerCase text)))"

text \<open>\<open>Array.from(new Set(xs))\<close>: the first occurrence of every element, in order.\<close>

definition uniqueInOrder :: "'a list \<Rightarrow> 'a list" where
  "uniqueInOrder xs = foldl (\<lambda>acc x. if x \<in> set acc then acc else acc @ [x]) [] xs"

definition scoreChunk :: "(jsstring \<Rightarrow> jsstring) \<Rightarrow> jsstring \<Rightarrow> jsstring list \<Rightarrow> real" where
  "scoreChunk toLowerCase text queryTokens =
     (let tokens = tokenize toLowerCase text in
      if tokens = [] then 0
      else
        (let tokenFreq = foldl (\<lambda>m token. m(token \<mapsto> (case m token of None \<Rightarrow> 0 | Some n \<Rightarrow> n) + 1))
                           (Map.empty :: jsstring \<rightharpoonup> nat) tokens;
             score = foldl (\<lambda>score token.
                              (let tf = (case tokenFreq token of None \<Rightarrow> 0 | Some n \<Rightarrow> n)
                               in if 0 < tf then score + (1 + ln (real tf)) else score))
                       0 queryTokens
         in score / sqrt (real (length tokens))))"

fun limitLoop :: "textChunk list \<Rightarrow> nat \<Rightarrow> nat \<Rightarrow> textChunk list" where
  "limitLoop [] charCount maxChars = []"
| "limitLoop (chunk # chunks) charCount maxChars =
     (if maxChars \<le> charCount + length (chunk_text chunk) then [chunk]
      else chunk # limitLoop chunks (charCount + length (chunk_text chunk)) maxChars)"

definition limitChunksByContext :: "textChunk list \<Rightarrow> textChunk list" where
  "limitChunksByContext chunks = limitLoop chunks 0 MAX_CONTEXT_CHARS"

definition selectSummaryChunks :: "paperIndex \<Rightarrow> textChunk list" where
  "selectSummaryChunks index = limitLoop (pi_chunks index) 0 MAX_CONTEXT_CHARS"

text \<open>
  A score table is a \<open>Map\<close> from chunk id to number, in insertion order.  The running
  minimum and maximum of \<open>normalizeScores\<close> start at \<open>+Infinity\<close> and \<open>-Infinity\<close>,
  here \<open>None\<close>; every score is below the one and above the other.
\<close>

definition normalizeScores :: "(jsstring \<times> real) list \<Rightarrow> (jsstring \<times> real) list" where
  "normalizeScores scores =
     (if scores = [] then []
      else
        (let mn = foldl (\<lambda>m score. case m of None \<Rightarrow> Some score
                                      | Some v \<Rightarrow> if score < v then Some score else m)
                    None (map snd scores);
             mx = foldl (\<lambda>m score. case m of None \<Rightarrow> Some score
                                      | Some v \<Rightarrow> if v < score then Some score else m)
                    None (map snd scores)
         in case (mn, mx) of
              (Some lo, Some hi) \<Rightarrow>
                if \<bar>hi - lo\<bar> < 1 / 10 ^ 9 then map (\<lambda>(key, score). (key, 1)) scores
                else map (\<lambda>(key, score). (key, (score - lo) / (hi - lo))) scores
            | _ \<Rightarrow> []))"

subsection \<open>Numbers of the cosine similarity\<close>

text \<open>
  The numbers of \<open>cosineSimilarity\<close> are IEEE 754 binary64 values: \<open>NaN\<close>, the two
  infinities and the finite values, a finite value being a real number.  The two zeros
  \<open>+0\<close> and \<open>-0\<close> are one value here; they compare equal in the source.

  \<open>round64\<close> rounds an exact result to the nearest binary64 value, ties to the even
  significand: the unit in the last place of \<open>x\<close> is \<open>2\<close> to the power of
  \<open>ulpExponent x\<close>, with 53 bits of significand and the least exponent \<open>-1022\<close>; a
  rounded magnitude of \<open>2 ^ 1024\<close> or more is an infinity.
\<close>

datatype jsnumber = Finite real | PosInfinity | NegInfinity | NaN

definition roundHalfEven :: "real \<Rightarrow> int" where
  "roundHalfEven y =
     (let f = \<lfloor>y\<rfloor> in
      if y - of_int f < 1 / 2 then f
      else if 1 / 2 < y - of_int f then f + 1
      else if even f then f else f + 1)"

definition ulpExponent :: "real \<Rightarrow> int" where
  "ulpExponent x = max \<lfloor>log 2 \<bar>x\<bar>\<rfloor> (- 1022) - 52"

definition round64 :: "real \<Rightarrow> jsnumber" where
  "round64 x =
     (if x = 0 then Finite 0
      else
        (let q = 2 powi ulpExponent x;
             r = of_int (roundHalfEven (x / q)) * q
         in if 2 ^ 1024 \<le> \<bar>r\<bar> then (if 0 < x then PosInfinity else NegInfinity)
            else Finite r))"

fun jsMultiply :: "jsnumber \<Rightarrow> jsnumber \<Rightarrow> jsnumber" where
  "jsMultiply (Finite a) (Finite b) = round64 (a * b)"
| "jsMultiply NaN y = NaN"
| "jsMultiply x NaN = NaN"
| "jsMultiply (Finite a) PosInfinity =
     (if a = 0 then NaN else if 0 < a then PosInfinity else NegInfinity)"
| "jsMultiply (Finite a) NegInfinity =
     (if a = 0 then NaN else if 0 < a then NegInfinity else PosInfinity)"
| "jsMultiply PosInfinity (Finite b) =
     (if b = 0 then NaN else if 0 < b then PosInfinity else NegInfinity)"
| "jsMultiply NegInfinity (Finite b) =
     (if b = 0 then NaN else if 0 < b then NegInfinity else PosInfinity)"
| "jsMultiply PosInfinity PosInfinity = PosInfinity"
| "jsMultiply PosInfinity NegInfinity = NegInfinity"
| "jsMultiply NegInfinity PosInfinity = NegInfinity"
| "jsMultiply NegInfinity NegInfinity = PosInfinity"

fun jsAdd :: "jsnumber \<Rightarrow> jsnumber \<Rightarrow> jsnumber" where
  "jsAdd (Finite a) (Finite b) = round64 (a + b)"
| "jsAdd NaN y = NaN"
| "jsAdd x NaN = NaN"
| "jsAdd PosInfinity NegInfinity = NaN"
| "jsAdd NegInfinity PosInfinity = NaN"
| "jsAdd PosInfinity y = PosInfinity"
| "jsAdd x PosInfinity = PosInfinity"
| "jsAdd NegInfinity y = NegInfinity"
| "jsAdd x NegInfinity = NegInfinity"

fun jsDivide :: "jsnumber \<Rightarrow> jsnumber \<Rightarrow> jsnumber" where
  "jsDivide (Finite a) (Finite b) =
     (if b = 0 then (if a = 0 then NaN else if 0 < a then PosInfinity else NegInfinity)
      else round64 (a / b))"
| "jsDivide NaN y = NaN"
| "jsDivide x NaN = NaN"
| "jsDivide (Finite a) y = Finite 0"
| "jsDivide PosInfinity (Finite b) = (if 0 \<le> b then PosInfinity else NegInfinity)"
| "jsDivide NegInfinity (Finite b) = (if 0 \<le> b then NegInfinity else PosInfinity)"
| "jsDivide x y = NaN"

fun jsSqrt :: "jsnumber \<Rightarrow> jsnumber" where
  "jsSqrt (Finite a) = (if a < 0 then NaN else round64 (sqrt a))"
| "jsSqrt PosInfinity = PosInfinity"
| "jsSqrt x = NaN"

text \<open>\<open>x <= 0\<close>; a comparison with \<open>NaN\<close> is false.\<close>

fun jsLessEqZero :: "jsnumber \<Rightarrow> bool" where
  "jsLessEqZero (Finite a) = (a \<le> 0)"
| "jsLessEqZero NegInfinity = True"
| "jsLessEqZero x = False"

function cosineLoop :: "jsnumber list \<Rightarrow> jsnumber list \<Rightarrow> nat \<Rightarrow> nat
    \<Rightarrow> jsnumber \<times> jsnumber \<times> jsnumber \<Rightarrow> jsnumber \<times> jsnumber \<times> jsnumber" where
  "cosineLoop vecA vecB sz i (dot, normA, normB) =
     (if i < sz then
        (let a = vecA ! i; b = vecB ! i
         in cosineLoop vecA vecB sz (i + 1)
              (jsAdd dot (jsMultiply a b), jsAdd normA (jsMultiply a a), jsAdd normB (jsMultiply b b)))
      else (dot, normA, normB))"
  by pat_completeness auto
termination
  by (relation "measure (\<lambda>(vecA, vecB, sz, i, acc). sz - i)") auto

declare cosineLoop.simps [simp del]

definition cosineSimilarity :: "jsnumber list \<Rightarrow> jsnumber list \<Rightarrow> jsnumber" where
  "cosineSimilarity vecA vecB =
     (let sz = min (length vecA) (length vecB) in
      if sz \<le> 0 then Finite 0
      else
        (case cosineLoop vecA vecB sz 0 (Finite 0, Finite 0, Finite 0) of
           (dot, normA, normB) \<Rightarrow>
             if jsLessEqZero normA \<or> jsLessEqZero normB then Finite 0
             else jsDivide dot (jsMultiply (jsSqrt normA) (jsSqrt normB))))"

text \<open>
  One round of the loop as a function of the accumulators and the pair of components,
  and the least positive binary64 value, \<open>Number.MIN_VALUE\<close>.
\<close>

definition MIN_VALUE :: real where "MIN_VALUE = 2 powi (- 1074)"


definition cosineStep :: "jsnumber \<times> jsnumber \<times> jsnumber \<Rightarrow> jsnumber \<times> jsnumber
    \<Rightarrow> jsnumber \<times> jsnumber \<times> jsnumber" where
  "cosineStep = (\<lambda>(dot, normA, normB) (a, b).
     (jsAdd dot (jsMultiply a b), jsAdd normA (jsMultiply a a), jsAdd normB (jsMultiply b b)))"

text \<open>
  A number that is \<open>NaN\<close>, \<open>+Infinity\<close> or a finite value of at least \<open>low\<close>: what
  passes the guard \<open>normA <= 0 || normB <= 0\<close>, for a positive \<open>low\<close>.
\<close>

definition positiveNumber :: "real \<Rightarrow> jsnumber \<Rightarrow> bool" where
  "positiveNumber low x \<longleftrightarrow> x = NaN \<or> x = PosInfinity \<or> (\<exists>r. x = Finite r \<and> low \<le> r)"

section \<open>Embedding cache\<close>

record embeddingConfig =
  ec_endpoint :: jsstring
  ec_apiKey :: jsstring
  ec_model :: jsstring
  ec_localMode :: bool

text \<open>
  The embedding endpoint (\<open>postJSON\<close> followed by \<open>extractEmbeddingVectors\<close>) is an
  external service: a function from the input texts to the vectors it answers with, or to
  the error the request ends with.
\<close>

type_synonym embeddingService = "jsstring list \<Rightarrow> js_error + real list list"

definition requestEmbeddings ::
    "embeddingConfig \<Rightarrow> embeddingService \<Rightarrow> jsstring list \<Rightarrow> appState
       \<Rightarrow> (js_error + real list list) \<times> appState" where
  "requestEmbeddings cfg service texts st =
     (if texts = [] then (Inr [], st)
      else if ec_endpoint cfg = [] \<or> ec_model cfg = [] then
        (Inl (Error (ascii ''Set embedding endpoint/model in plugin preferences before hybrid search.'')), st)
      else
        (let st' = st\<lparr>embedRequests := embedRequests st @ [texts]\<rparr> in
         case service texts of
           Inl e \<Rightarrow> (Inl e, st')
         | Inr vectors \<Rightarrow>
             if length vectors \<noteq> length texts then
               (Inl (Error (ascii ''Embedding response size mismatch: requested ''
                            @ ascii (decimal (length texts)) @ ascii '', got ''
                            @ ascii (decimal (length vectors)) @ ascii ''.'')), st')
             else (Inr vectors, st')))"

definition requestEmbedding ::
    "embeddingConfig \<Rightarrow> embeddingService \<Rightarrow> jsstring \<Rightarrow> appState
       \<Rightarrow> (js_error + real list) \<times> appState" where
  "requestEmbedding cfg service text st =
     (case requestEmbeddings cfg service [text] st of
        (Inl e, st') \<Rightarrow> (Inl e, st')
      | (Inr vectors, st') \<Rightarrow> (Inr (case vectors of [] \<Rightarrow> [] | v # _ \<Rightarrow> v), st'))"

text \<open>
  The first loop of \<open>getOrCreateChunkEmbeddings\<close>, over \<open>Object.keys(working.vectors)\<close>:
  a key that is not a chunk id of the index loses its vector and its hash.
\<close>

fun pruneLoop :: "jsstring list \<Rightarrow> jsstring set \<Rightarrow> paperEmbeddings \<times> bool \<Rightarrow> paperEmbeddings \<times> bool" where
  "pruneLoop [] validChunkIDs (working, dirty) = (working, dirty)"
| "pruneLoop (key # keys) validChunkIDs (working, dirty) =
     (if key \<notin> validChunkIDs then
        pruneLoop keys validChunkIDs
          (working\<lparr>pe_vectors := AList.delete key (pe_vectors working),
                   pe_chunkHashes := AList.delete key (pe_chunkHashes working)\<rparr>, True)
      else pruneLoop keys validChunkIDs (working, dirty))"

text \<open>The second loop: the chunks to embed again, each with its recomputed hash.\<close>

definition needsEmbedding :: "paperEmbeddings \<Rightarrow> textChunk \<Rightarrow> bool" where
  "needsEmbedding working chunk \<longleftrightarrow>
     map_of (pe_chunkHashes working) (chunk_id chunk) \<noteq> Some (hashText (chunk_text chunk)) \<or>
     (case map_of (pe_vectors working) (chunk_id chunk) of None \<Rightarrow> True | Some vector \<Rightarrow> vector = [])"

definition missingChunks :: "paperEmbeddings \<Rightarrow> textChunk list \<Rightarrow> (textChunk \<times> jsstring) list" where
  "missingChunks working chunks =
     map (\<lambda>chunk. (chunk, hashText (chunk_text chunk))) (filter (needsEmbedding working) chunks)"

text \<open>
  The inner loop over one batch: \<open>vectors[j]\<close> is \<open>undefined\<close> past the end of
  \<open>vectors\<close>, and the pair is skipped.
\<close>

fun assignBatch :: "(textChunk \<times> jsstring) list \<Rightarrow> real list list \<Rightarrow> paperEmbeddings \<times> bool
    \<Rightarrow> paperEmbeddings \<times> bool" where
  "assignBatch [] vectors (working, dirty) = (working, dirty)"
| "assignBatch (pair # batch) [] (working, dirty) = assignBatch batch [] (working, dirty)"
| "assignBatch ((chunk, hash) # batch) (vector # vectors) (working, dirty) =
     assignBatch batch vectors
       (working\<lparr>pe_vectors := AList.update (chunk_id chunk) vector (pe_vectors working),
                pe_chunkHashes := AList.update (chunk_id chunk) hash (pe_chunkHashes working)\<rparr>, True)"

text \<open>The outer loop, in steps of \<open>EMBEDDING_BATCH_SIZE\<close>; an error of a request ends it.\<close>

function embedBatches ::
    "embeddingConfig \<Rightarrow> embeddingService \<Rightarrow> (textChunk \<times> jsstring) list \<Rightarrow> paperEmbeddings \<times> bool
       \<Rightarrow> appState \<Rightarrow> (js_error + paperEmbeddings \<times> bool) \<times> appState" where
  "embedBatches cfg service missing (working, dirty) st =
     (if missing = [] then (Inr (working, dirty), st)
      else
        (let batch = take EMBEDDING_BATCH_SIZE missing in
         case requestEmbeddings cfg service (map (\<lambda>item. chunk_text (fst item)) batch) st of
           (Inl e, st') \<Rightarrow> (Inl e, st')
         | (Inr vectors, st') \<Rightarrow>
             embedBatches cfg service (drop EMBEDDING_BATCH_SIZE missing)
               (assignBatch batch vectors (working, dirty)) st'))"
  by pat_completeness auto
termination
  by (relation "measure (\<lambda>(cfg, service, missing, wd, st). length missing)")
     (auto simp: EMBEDDING_BATCH_SIZE_def)

declare embedBatches.simps [simp del]

text \<open>\<open>now\<close> is the time stamp \<open>new Date().toISOString()\<close> of the call.\<close>

definition getOrCreateChunkEmbeddings ::
    "embeddingConfig \<Rightarrow> embeddingService \<Rightarrow> jsstring \<Rightarrow> jsstring \<Rightarrow> paperIndex \<Rightarrow> appState
       \<Rightarrow> (js_error + (jsstring \<times> real list) list) \<times> appState" where
  "getOrCreateChunkEmbeddings cfg service now paperID index st0 =
     (case loadStore st0 of (store, st) \<Rightarrow>
        (let entry = embeddings store paperID;
             reset = (case entry of None \<Rightarrow> True
                      | Some e \<Rightarrow> pe_endpoint e \<noteq> ec_endpoint cfg \<or> pe_model e \<noteq> ec_model cfg);
             working0 = (case entry of
                           None \<Rightarrow> \<lparr>pe_endpoint = ec_endpoint cfg, pe_model = ec_model cfg,
                                     pe_chunkHashes = [], pe_vectors = [], pe_updatedAt = now\<rparr>
                         | Some e \<Rightarrow>
                             if reset then \<lparr>pe_endpoint = ec_endpoint cfg, pe_model = ec_model cfg,
                                            pe_chunkHashes = [], pe_vectors = [], pe_updatedAt = now\<rparr>
                             else e);
             validChunkIDs = set (map chunk_id (pi_chunks index));
             pruned = pruneLoop (map fst (pe_vectors working0)) validChunkIDs (working0, reset);
             missing = missingChunks (fst pruned) (pi_chunks index)
         in case embedBatches cfg service missing pruned st of
              (Inl e, st') \<Rightarrow> (Inl e, st')
            | (Inr (working, dirty), st') \<Rightarrow>
                if dirty then
                  (let working' = working\<lparr>pe_updatedAt := now\<rparr>;
                       store' = store\<lparr>embeddings := (embeddings store)(paperID \<mapsto> working')\<rparr>
                   in (Inr (filter (\<lambda>(chunkID, vector). vector \<noteq> []) (pe_vectors working')),
                       persistStore store' st'))
                else (Inr (filter (\<lambda>(chunkID, vector). vector \<noteq> []) (pe_vectors working)), st')))"

text \<open>
  For the statement of the cache property: whether the stored entry is reset, and whether
  a chunk of the index is embedded again, both read off the stored entry.
\<close>

definition cacheReset :: "embeddingConfig \<Rightarrow> paperEmbeddings option \<Rightarrow> bool" where
  "cacheReset cfg entry \<longleftrightarrow>
     (case entry of None \<Rightarrow> True
      | Some e \<Rightarrow> pe_endpoint e \<noteq> ec_endpoint cfg \<or> pe_model e \<noteq> ec_model cfg)"

definition reembedded :: "embeddingConfig \<Rightarrow> paperEmbeddings option \<Rightarrow> textChunk \<Rightarrow> bool" where
  "reembedded cfg entry chunk \<longleftrightarrow>
     cacheReset cfg entry \<or>
     (case entry of None \<Rightarrow> True
      | Some e \<Rightarrow>
          map_of (pe_chunkHashes e) (chunk_id chunk) \<noteq> Some (hashText (chunk_text chunk)) \<or>
          map_of (pe_vectors e) (chunk_id chunk) = None \<or>
          map_of (pe_vectors e) (chunk_id chunk) = Some [])"

definition staleKeys :: "embeddingConfig \<Rightarrow> paperEmbeddings option \<Rightarrow> paperIndex \<Rightarrow> jsstring set" where
  "staleKeys cfg entry index =
     (case entry of None \<Rightarrow> {}
      | Some e \<Rightarrow> if cacheReset cfg entry then {}
                  else fst ` set (pe_vectors e) - chunk_id ` set (pi_chunks index))"

text \<open>
  The vectors and hashes of the stored entry that are kept: none when the entry is reset,
  else those whose key is a chunk id of the index.
\<close>

definition keptVectors ::
    "embeddingConfig \<Rightarrow> paperEmbeddings option \<Rightarrow> paperIndex \<Rightarrow> jsstring \<rightharpoonup> real list" where
  "keptVectors cfg entry index =
     (\<lambda>key. case entry of None \<Rightarrow> None
            | Some e \<Rightarrow> if cacheReset cfg entry \<or> key \<notin> chunk_id ` set (pi_chunks index) then None
                        else map_of (pe_vectors e) key)"

definition keptHashes ::
    "embeddingConfig \<Rightarrow> paperEmbeddings option \<Rightarrow> paperIndex \<Rightarrow> jsstring \<rightharpoonup> jsstring" where
  "keptHashes cfg entry index =
     (\<lambda>key. case entry of None \<Rightarrow> None
            | Some e \<Rightarrow> if cacheReset cfg entry \<or> key \<notin> chunk_id ` set (pi_chunks index) then None
                        else map_of (pe_chunkHashes e) key)"

text \<open>Two states with the same store, index cache, store file and written payloads.\<close>

definition sameStore :: "appState \<Rightarrow> appState \<Rightarrow> bool" where
  "sameStore st st' \<longleftrightarrow>
     storeCache st' = storeCache st \<and> storeWrites st' = storeWrites st \<and>
     indexCache st' = indexCache st \<and> storeFile st' = storeFile st"

text \<open>
  An example: a service answering each text with a one-component vector, a configuration,
  an index of two chunks, and a stored entry for the same endpoint and model that holds
  the first chunk (unchanged) and a chunk \<open>chunk-9\<close> that is no longer in the index.
\<close>

definition exampleService :: embeddingService where
  "exampleService texts = Inr (map (\<lambda>t. [real (length t)]) texts)"

definition exampleConfig :: embeddingConfig where
  "exampleConfig = \<lparr>ec_endpoint = ascii ''e'', ec_apiKey = [], ec_model = ascii ''m'', ec_localMode = False\<rparr>"

definition exampleIndex :: paperIndex where
  "exampleIndex = \<lparr>pi_hash = ascii ''0'', pi_title = ascii ''T'', pi_source = ascii ''pdf-cache'',
     pi_chunks = [\<lparr>chunk_id = ascii ''chunk-1'', chunk_text = ascii ''aa'', chunk_start = 0, chunk_end = 2\<rparr>,
                  \<lparr>chunk_id = ascii ''chunk-2'', chunk_text = ascii ''bbb'', chunk_start = 2, chunk_end = 5\<rparr>],
     pi_updatedAt = ascii ''t0''\<rparr>"

definition exampleEntry :: paperEmbeddings where
  "exampleEntry = \<lparr>pe_endpoint = ascii ''e'', pe_model = ascii ''m'',
     pe_chunkHashes = [(ascii ''chunk-1'', hashText (ascii ''aa'')), (ascii ''chunk-9'', ascii ''7'')],
     pe_vectors = [(ascii ''chunk-1'', [2]), (ascii ''chunk-9'', [5])],
     pe_updatedAt = ascii ''t0''\<rparr>"

definition exampleState :: appState where
  "exampleState = \<lparr>storeCache = Some (emptyStore\<lparr>embeddings := [ascii ''p'' \<mapsto> exampleEntry]\<rparr>),
     indexCache = Map.empty, storeFile = None, storeWrites = [], embedRequests = []\<rparr>"

section \<open>Hybrid retrieval\<close>

datatype retrievalMode = Keyword | Hybrid

record retrievalResult =
  rr_chunks :: "textChunk list"
  rr_retrievalMode :: retrievalMode

text \<open>\<open>scores.get(id) || 0\<close> on a score table.\<close>

definition scoreOf :: "(jsstring \<times> real) list \<Rightarrow> jsstring \<Rightarrow> real" where
  "scoreOf scores key = (case map_of scores key of None \<Rightarrow> 0 | Some score \<Rightarrow> score)"

definition lexicalScoresOf ::
    "(jsstring \<Rightarrow> jsstring) \<Rightarrow> textChunk list \<Rightarrow> jsstring list \<Rightarrow> (jsstring \<times> real) list" where
  "lexicalScoresOf toLowerCase chunks queryTokens =
     foldl (\<lambda>lexicalScores chunk.
              (let score = scoreChunk toLowerCase (chunk_text chunk) queryTokens
               in if 0 < score then AList.update (chunk_id chunk) score lexicalScores
                  else lexicalScores))
       [] chunks"

text \<open>
  \<open>Array.prototype.sort\<close> is stable; with the comparator \<open>(a, b) => score(b) - score(a)\<close>
  it sorts by descending score, which \<open>sort_key\<close> does on the negated score.
\<close>

definition keywordChunksOf :: "paperIndex \<Rightarrow> (jsstring \<times> real) list \<Rightarrow> int \<Rightarrow> textChunk list" where
  "keywordChunksOf index lexicalScores topK =
     limitChunksByContext
       (sliceTo
          (sort_key (\<lambda>chunk. - scoreOf lexicalScores (chunk_id chunk))
             (filter (\<lambda>chunk. 0 < scoreOf lexicalScores (chunk_id chunk)) (pi_chunks index)))
          topK)"

text \<open>The result returned on every keyword-only path.\<close>

definition keywordResult :: "paperIndex \<Rightarrow> textChunk list \<Rightarrow> int \<Rightarrow> retrievalResult" where
  "keywordResult index keywordChunks topK =
     \<lparr>rr_chunks = (if keywordChunks \<noteq> [] then keywordChunks
                   else sliceTo (selectSummaryChunks index) topK),
      rr_retrievalMode = Keyword\<rparr>"

text \<open>
  The dense scores: the vectors hold finite numbers, which \<open>cosineSimilarity\<close> takes as
  binary64 values; a result that is not finite is dropped (\<open>Number.isFinite\<close>).
\<close>

definition denseScoresOf ::
    "textChunk list \<Rightarrow> real list \<Rightarrow> (jsstring \<times> real list) list \<Rightarrow> (jsstring \<times> real) list" where
  "denseScoresOf chunks queryVector chunkVectors =
     foldl (\<lambda>denseScores chunk.
              (case map_of chunkVectors (chunk_id chunk) of
                 None \<Rightarrow> denseScores
               | Some vector \<Rightarrow>
                   if vector = [] then denseScores
                   else (case cosineSimilarity (map Finite queryVector) (map Finite vector) of
                           Finite score \<Rightarrow> AList.update (chunk_id chunk) score denseScores
                         | _ \<Rightarrow> denseScores)))
       [] chunks"

text \<open>
  The body of the \<open>try\<close> block of \<open>retrieveRelevantChunks\<close>: an \<open>Inl\<close> is an exception
  thrown inside it.
\<close>

definition hybridAttempt ::
    "embeddingConfig \<Rightarrow> embeddingService \<Rightarrow> jsstring \<Rightarrow> jsstring \<Rightarrow> paperIndex \<Rightarrow> jsstring
       \<Rightarrow> int \<Rightarrow> jsstring list \<Rightarrow> (jsstring \<times> real) list \<Rightarrow> textChunk list \<Rightarrow> appState
       \<Rightarrow> (js_error + retrievalResult) \<times> appState" where
  "hybridAttempt cfg service now paperID index query topK queryTokens lexicalScores keywordChunks st =
     (case requestEmbedding cfg service query st of
        (Inl e, st1) \<Rightarrow> (Inl e, st1)
      | (Inr queryVector, st1) \<Rightarrow>
          (case getOrCreateChunkEmbeddings cfg service now paperID index st1 of
             (Inl e, st2) \<Rightarrow> (Inl e, st2)
           | (Inr chunkVectors, st2) \<Rightarrow>
               if queryVector = [] \<or> chunkVectors = [] then
                 (Inr (keywordResult index keywordChunks topK), st2)
               else
                 (let denseScores = denseScoresOf (pi_chunks index) queryVector chunkVectors;
                      lexicalNorm = normalizeScores lexicalScores;
                      denseNorm = normalizeScores denseScores;
                      denseWeight = (if length queryTokens < 4 then 62 / 100 else 55 / 100 :: real);
                      lexicalWeight = 1 - denseWeight;
                      ranked =
                        map fst
                          (sliceTo
                             (sort_key (\<lambda>entry. - snd entry)
                                (filter (\<lambda>entry. 0 < snd entry)
                                   (map (\<lambda>chunk.
                                           (chunk,
                                            lexicalWeight * scoreOf lexicalNorm (chunk_id chunk)
                                              + denseWeight * scoreOf denseNorm (chunk_id chunk)))
                                      (pi_chunks index))))
                             topK)
                  in if ranked = [] then (Inr (keywordResult index keywordChunks topK), st2)
                     else (Inr \<lparr>rr_chunks = limitChunksByContext ranked,
                                rr_retrievalMode = Hybrid\<rparr>, st2))))"

text \<open>
  \<open>hybridEnabled\<close> is the preference read by \<open>isHybridSearchEnabled\<close>.  The \<open>catch\<close>
  clause turns every exception of the \<open>try\<close> block into the keyword result.
\<close>

definition retrieveRelevantChunks ::
    "(jsstring \<Rightarrow> jsstring) \<Rightarrow> bool \<Rightarrow> embeddingConfig \<Rightarrow> embeddingService \<Rightarrow> jsstring
       \<Rightarrow> jsstring \<Rightarrow> paperIndex \<Rightarrow> jsstring \<Rightarrow> int \<Rightarrow> appState
       \<Rightarrow> (js_error + retrievalResult) \<times> appState" where
  "retrieveRelevantChunks toLowerCase hybridEnabled cfg service now paperID index query topK st =
     (let queryTokens = uniqueInOrder (tokenize toLowerCase query) in
      if queryTokens = [] then
        (Inr \<lparr>rr_chunks = sliceTo (selectSummaryChunks index) topK, rr_retrievalMode = Keyword\<rparr>, st)
      else
        (let lexicalScores = lexicalScoresOf toLowerCase (pi_chunks index) queryTokens;
             keywordChunks = keywordChunksOf index lexicalScores topK
         in if \<not> hybridEnabled then (Inr (keywordResult index keywordChunks topK), st)
            else
              (case hybridAttempt cfg service now paperID index query topK queryTokens
                      lexicalScores keywordChunks st of
                 (Inr result, st') \<Rightarrow> (Inr result, st')
               | (Inl error, st') \<Rightarrow> (Inr (keywordResult index keywordChunks topK), st'))))"

text \<open>
  For the statement of the fallback property: the embedding path fails when the query
  embedding or the chunk embeddings end with an exception, or the query vector is empty,
  or there are no chunk vectors.
\<close>

definition embeddingPathFails ::
    "embeddingConfig \<Rightarrow> embeddingService \<Rightarrow> jsstring \<Rightarrow> jsstring \<Rightarrow> paperIndex \<Rightarrow> jsstring
       \<Rightarrow> appState \<Rightarrow> bool" where
  "embeddingPathFails cfg service now paperID index query st \<longleftrightarrow>
     (case requestEmbedding cfg service query st of
        (Inl e, st1) \<Rightarrow> True
      | (Inr queryVector, st1) \<Rightarrow>
          queryVector = [] \<or>
          (case getOrCreateChunkEmbeddings cfg service now paperID index st1 of
             (Inl e, st2) \<Rightarrow> True
           | (Inr chunkVectors, st2) \<Rightarrow> chunkVectors = []))"

text \<open>\<open>String.prototype.toLowerCase\<close> on ASCII letters, for examples.\<close>

definition asciiLowerCase :: "jsstring \<Rightarrow> jsstring" where
  "asciiLowerCase s = map (\<lambda>c. if 0x0041 \<le> c \<and> c \<le> 0x005A then c + 0x0020 else c) s"

section \<open>Paper index manager\<close>

text \<open>
  Of a resolved paper the index manager uses the paper id and the title.  The text and
  source that \<open>loadPaperText\<close> reads from the library (PDF text cache, abstract or
  title) are the argument \<open>paperText\<close>; \<open>now\<close> is the time stamp of the call.
\<close>

record resolvedPaper =
  rp_paperID :: jsstring
  rp_title :: jsstring

record paperText =
  pt_text :: jsstring
  pt_source :: jsstring

definition buildPaperIndex :: "resolvedPaper \<Rightarrow> jsstring \<Rightarrow> jsstring \<Rightarrow> jsstring \<Rightarrow> js_error + paperIndex" where
  "buildPaperIndex resolved source normalizedText now =
     (let chunks = chunkText normalizedText in
      if chunks = [] then
        Inl (Error (ascii ''No readable paper content found. Index the PDF in Zotero first.''))
      else Inr \<lparr>pi_hash = hashText normalizedText, pi_title = rp_title resolved, pi_source = source,
                 pi_chunks = chunks, pi_updatedAt = now\<rparr>)"

definition ensurePaperIndex ::
    "resolvedPaper \<Rightarrow> paperText \<Rightarrow> jsstring \<Rightarrow> appState \<Rightarrow> (js_error + paperIndex) \<times> appState" where
  "ensurePaperIndex resolved paperText now st0 =
     (case (case indexCache st0 (rp_paperID resolved) of
              Some cached \<Rightarrow> if pi_source cached = ascii ''pdf-cache'' then Some cached else None
            | None \<Rightarrow> None) of
        Some cached \<Rightarrow> (Inr cached, st0)
      | None \<Rightarrow>
          (case loadStore st0 of (store, st) \<Rightarrow>
             (let existing = papers store (rp_paperID resolved);
                  normalizedText = normalizeText (pt_text paperText)
              in case (case existing of
                         Some ex \<Rightarrow>
                           if pi_hash ex = hashText normalizedText \<and>
                              pi_source ex = pt_source paperText \<and>
                              pi_title ex = rp_title resolved
                           then Some ex else None
                       | None \<Rightarrow> None) of
                   Some ex \<Rightarrow>
                     (Inr ex, st\<lparr>indexCache := (indexCache st)(rp_paperID resolved \<mapsto> ex)\<rparr>)
                 | None \<Rightarrow>
                     (case buildPaperIndex resolved (pt_source paperText) normalizedText now of
                        Inl e \<Rightarrow> (Inl e, st)
                      | Inr index \<Rightarrow>
                          (Inr index,
                           persistStore (store\<lparr>papers := (papers store)(rp_paperID resolved \<mapsto> index)\<rparr>)
                             (st\<lparr>indexCache := (indexCache st)(rp_paperID resolved \<mapsto> index)\<rparr>))))))"

text \<open>
  For the statement of the rebuild policy: the in-memory cache holds an index of the paper
  read from the PDF text cache; the stored index of the paper has the hash, source and
  title of the current text.
\<close>

definition cachedPdfIndex :: "appState \<Rightarrow> jsstring \<Rightarrow> paperIndex option" where
  "cachedPdfIndex st paperID =
     (case indexCache st paperID of
        Some cached \<Rightarrow> if pi_source cached = ascii ''pdf-cache'' then Some cached else None
      | None \<Rightarrow> None)"

definition indexUnchanged :: "paperIndex \<Rightarrow> resolvedPaper \<Rightarrow> paperText \<Rightarrow> bool" where
  "indexUnchanged ex resolved paperText \<longleftrightarrow>
     pi_hash ex = hashText (normalizeText (pt_text paperText)) \<and>
     pi_source ex = pt_source paperText \<and> pi_title ex = rp_title resolved"

text \<open>An example: a paper whose PDF text cache holds \<open>aa\<close>, under two titles.\<close>

definition examplePaper :: "jsstring \<Rightarrow> resolvedPaper" where
  "examplePaper title = \<lparr>rp_paperID = ascii ''p'', rp_title = title\<rparr>"

definition examplePdfText :: paperText where
  "examplePdfText = \<lparr>pt_text = ascii ''aa'', pt_source = ascii ''pdf-cache''\<rparr>"

definition exampleAbstractText :: paperText where
  "exampleAbstractText = \<lparr>pt_text = ascii ''aa'', pt_source = ascii ''abstract''\<rparr>"

text \<open>
  The index the first call builds for the example paper under the title \<open>T\<close>, and the
  state it leaves.
\<close>

definition exampleFirstIndex :: paperIndex where
  "exampleFirstIndex =
     \<lparr>pi_hash = hashText (normalizeText (ascii ''aa'')), pi_title = ascii ''T'',
      pi_source = ascii ''pdf-cache'', pi_chunks = chunkText (normalizeText (ascii ''aa'')),
      pi_updatedAt = ascii ''t0''\<rparr>"

definition exampleAfterFirst :: appState where
  "exampleAfterFirst =
     snd (ensurePaperIndex (examplePaper (ascii ''T'')) examplePdfText (ascii ''t0'') (initialState None))"

section \<open>Evidence enforcement\<close>

text \<open>
  The two Korean string literals of \<open>enforceEvidence\<close>, as code units: the disclaimer
  that the citation of evidence is missing, and the header of the context snippets.
\<close>

definition EVIDENCE_DISCLAIMER :: jsstring where
  "EVIDENCE_DISCLAIMER =
     [
      0xADFC, 0xAC70, 0x0020, 0xC778, 0xC6A9, 0xC774, 0x0020, 0xB204,
      0xB77D, 0xB418, 0xC5B4, 0x0020, 0xB2F5, 0xBCC0, 0x0020, 0xC2E0,
      0xB8B0, 0xB3C4, 0xB97C, 0x0020, 0xBCF4, 0xC7A5, 0xD558, 0xAE30,
      0x0020, 0xC5B4, 0xB835, 0xC2B5, 0xB2C8, 0xB2E4, 0x002E]"

definition EVIDENCE_CONTEXT_HEADER :: jsstring where
  "EVIDENCE_CONTEXT_HEADER =
     [
      0xAC80, 0xD1A0, 0xC6A9, 0x0020, 0xCEE8, 0xD14D, 0xC2A4, 0xD2B8,
      0x003A]"

text \<open>\<open>parts.join(sep)\<close>.\<close>

fun joinWith :: "jsstring \<Rightarrow> jsstring list \<Rightarrow> jsstring" where
  "joinWith sep [] = []"
| "joinWith sep [part] = part"
| "joinWith sep (part # parts) = part @ sep @ joinWith sep parts"

definition clipText :: "jsstring \<Rightarrow> nat \<Rightarrow> jsstring" where
  "clipText text maxChars =
     (if length text \<le> maxChars then text else trim (take maxChars text) @ ascii ''...'')"

text \<open>
  \<open>/\[C\d+\]/.test(s)\<close>: somewhere in \<open>s\<close> there are the characters \<open>[C\<close>, then one
  or more digits, then \<open>]\<close>.  At one position the greedy run of digits is followed by
  \<open>]\<close> or the match fails there, since \<open>]\<close> is not a digit.
\<close>

definition isDigit :: "code_unit \<Rightarrow> bool" where
  "isDigit c \<longleftrightarrow> 0x0030 \<le> c \<and> c \<le> 0x0039"

fun markerAt :: "jsstring \<Rightarrow> bool" where
  "markerAt (a # b # rest) =
     (a = 0x005B \<and> b = 0x0043 \<and> takeWhile isDigit rest \<noteq> [] \<and>
      (case dropWhile isDigit rest of [] \<Rightarrow> False | c # _ \<Rightarrow> c = 0x005D))"
| "markerAt _ = False"

fun hasEvidenceMarker :: "jsstring \<Rightarrow> bool" where
  "hasEvidenceMarker [] = False"
| "hasEvidenceMarker (c # cs) = (markerAt (c # cs) \<or> hasEvidenceMarker cs)"

text \<open>The label and text of one snippet, from its position and chunk.\<close>

definition evidenceSnippet :: "nat \<times> textChunk \<Rightarrow> jsstring" where
  "evidenceSnippet = (\<lambda>(index, chunk).
     ascii ''[C'' @ ascii (decimal (index + 1)) @ ascii ''] '' @ clipText (chunk_text chunk) 220)"

text \<open>\<open>evidenceRequired\<close> is the preference read by \<open>isEvidenceRequired\<close>.\<close>

definition enforceEvidence :: "bool \<Rightarrow> jsstring \<Rightarrow> textChunk list \<Rightarrow> jsstring" where
  "enforceEvidence evidenceRequired answer chunks =
     (let clean = trim answer in
      if \<not> evidenceRequired \<or> chunks = [] \<or> hasEvidenceMarker clean then clean
      else
        (let snippets = joinWith [0x000A] (map evidenceSnippet (enumerate 0 (take 3 chunks)))
         in joinWith [0x000A] [EVIDENCE_DISCLAIMER, clean, [], EVIDENCE_CONTEXT_HEADER, snippets]))"

section \<open>Conversation and memory\<close>

definition MAX_STORED_MESSAGES :: nat where "MAX_STORED_MESSAGES = 60"
definition MEMORY_REFRESH_MIN_NEW_MESSAGES :: int where "MEMORY_REFRESH_MIN_NEW_MESSAGES = 6"
definition MEMORY_SOURCE_WINDOW :: nat where "MEMORY_SOURCE_WINDOW = 18"

text \<open>\<open>xs.slice(-n)\<close> for \<open>n > 0\<close>: the last \<open>n\<close> elements.\<close>

definition sliceLast :: "'a list \<Rightarrow> nat \<Rightarrow> 'a list" where
  "sliceLast xs n = drop (length xs - n) xs"

definition appendConversation :: "jsstring \<Rightarrow> chatMessage list \<Rightarrow> appState \<Rightarrow> appState" where
  "appendConversation paperID messages st0 =
     (case loadStore st0 of (store, st) \<Rightarrow>
        (let existing = (case conversations store paperID of None \<Rightarrow> [] | Some ms \<Rightarrow> ms);
             store' = store\<lparr>conversations :=
                        (conversations store)(paperID \<mapsto> sliceLast (existing @ messages) MAX_STORED_MESSAGES)\<rparr>
         in persistStore store' st))"

definition clearConversation :: "jsstring \<Rightarrow> appState \<Rightarrow> appState" where
  "clearConversation paperID st0 =
     (case loadStore st0 of (store, st) \<Rightarrow>
        persistStore (store\<lparr>conversations := (conversations store)(paperID := None),
                            memories := (memories store)(paperID := None)\<rparr>) st)"

definition transcriptOf :: "chatMessage list \<Rightarrow> jsstring" where
  "transcriptOf conversation =
     joinWith [0x000A]
       (map (\<lambda>message. (if cm_role message = User then ascii ''User'' else ascii ''Assistant'')
                         @ ascii '': '' @ cm_content message)
          (sliceLast conversation MEMORY_SOURCE_WINDOW))"

text \<open>
  \<open>refreshConversationMemoryIfNeeded\<close> is called with \<open>void\<close> and awaits the chat
  request (the two rendered prompt templates sent with \<open>requestLLM\<close>) between reading
  the conversation and writing the memory, so it runs in two steps.  \<open>refreshStart\<close> is
  the part before the request: it returns the request to make, with the length of the
  conversation it has read, or \<open>None\<close> when no refresh is due.
\<close>

record memoryRequest =
  mr_paperID :: jsstring
  mr_title :: jsstring
  mr_transcript :: jsstring
  mr_turnCount :: nat

definition refreshStart :: "jsstring \<Rightarrow> jsstring \<Rightarrow> appState \<Rightarrow> memoryRequest option \<times> appState" where
  "refreshStart paperID title st0 =
     (case loadStore st0 of (store, st) \<Rightarrow>
        (let conversation = (case conversations store paperID of None \<Rightarrow> [] | Some ms \<Rightarrow> ms) in
         if length conversation < 4 then (None, st)
         else
           (let memory = memories store paperID;
                turnCount = (case memory of None \<Rightarrow> 0 | Some m \<Rightarrow> mem_turnCount m);
                newMessageCount = int (length conversation) - int turnCount
            in if memory \<noteq> None \<and> newMessageCount < MEMORY_REFRESH_MIN_NEW_MESSAGES then (None, st)
               else (Some \<lparr>mr_paperID = paperID, mr_title = title,
                            mr_transcript = transcriptOf conversation,
                            mr_turnCount = length conversation\<rparr>, st))))"

text \<open>
  The body of the \<open>try\<close> block from the end of the chat request on; \<open>response\<close> is the
  summary returned or the error thrown.  The variable \<open>store\<close> of the source is the
  object that \<open>storeCache\<close> holds, which other calls have changed in place meanwhile:
  the memory is written into the store as it is at that moment, with the length of the
  conversation as it was read by \<open>refreshStart\<close>.
\<close>

definition refreshAttempt ::
    "js_error + jsstring \<Rightarrow> jsstring \<Rightarrow> memoryRequest \<Rightarrow> appState \<Rightarrow> (js_error + unit) \<times> appState" where
  "refreshAttempt response now request st0 =
     (case response of
        Inl e \<Rightarrow> (Inl e, st0)
      | Inr summary \<Rightarrow>
          if trim summary = [] then (Inr (), st0)
          else
            (case loadStore st0 of (store, st) \<Rightarrow>
               (Inr (),
                persistStore
                  (store\<lparr>memories := (memories store)(mr_paperID request \<mapsto>
                             \<lparr>mem_summary = trim summary, mem_updatedAt = now,
                              mem_turnCount = mr_turnCount request\<rparr>)\<rparr>)
                  st)))"

text \<open>The \<open>catch\<close> clause logs the error and returns.\<close>

definition refreshFinish ::
    "js_error + jsstring \<Rightarrow> jsstring \<Rightarrow> memoryRequest \<Rightarrow> appState \<Rightarrow> (js_error + unit) \<times> appState" where
  "refreshFinish response now request st0 =
     (case refreshAttempt response now request st0 of
        (Inr u, st) \<Rightarrow> (Inr u, st)
      | (Inl error, st) \<Rightarrow> (Inr (), st))"

text \<open>
  \<open>refreshConversationMemoryIfNeeded\<close> when nothing else runs while it awaits the chat
  request; \<open>llm title transcript\<close> is the response to the request.
\<close>

definition refreshConversationMemoryIfNeeded ::
    "(jsstring \<Rightarrow> jsstring \<Rightarrow> js_error + jsstring) \<Rightarrow> jsstring \<Rightarrow> jsstring \<Rightarrow> jsstring
       \<Rightarrow> appState \<Rightarrow> (js_error + unit) \<times> appState" where
  "refreshConversationMemoryIfNeeded llm now paperID title st0 =
     (case refreshStart paperID title st0 of
        (None, st) \<Rightarrow> (Inr (), st)
      | (Some request, st) \<Rightarrow>
          refreshFinish (llm (mr_title request) (mr_transcript request)) now request st)"

text \<open>
  The operations on conversations and memories as the scheduler runs them: an append, a
  clear, the start of a refresh, and the end of the \<open>n\<close>-th pending chat request with its
  response and the time stamp of that moment.  A run carries the requests that are
  pending.
\<close>

datatype storeOperation =
    Append jsstring "chatMessage list"
  | Clear jsstring
  | RefreshStart jsstring jsstring
  | RefreshFinish nat "js_error + jsstring" jsstring

fun applyOperation ::
    "appState \<times> memoryRequest list \<Rightarrow> storeOperation \<Rightarrow> appState \<times> memoryRequest list" where
  "applyOperation (st, pending) (Append paperID messages) =
     (appendConversation paperID messages st, pending)"
| "applyOperation (st, pending) (Clear paperID) = (clearConversation paperID st, pending)"
| "applyOperation (st, pending) (RefreshStart paperID title) =
     (case refreshStart paperID title st of
        (None, st') \<Rightarrow> (st', pending)
      | (Some request, st') \<Rightarrow> (st', pending @ [request]))"
| "applyOperation (st, pending) (RefreshFinish n response now) =
     (if n < length pending
      then (snd (refreshFinish response now (pending ! n) st), take n pending @ drop (Suc n) pending)
      else (st, pending))"

definition runOperations :: "appState \<Rightarrow> storeOperation list \<Rightarrow> appState \<times> memoryRequest list" where
  "runOperations st ops = foldl applyOperation (st, []) ops"

text \<open>The store an operation works on, and its conversation and memory of a paper.\<close>

definition currentStore :: "appState \<Rightarrow> paperStore" where
  "currentStore st = fst (loadStore st)"

definition conversationOf :: "paperStore \<Rightarrow> jsstring \<Rightarrow> chatMessage list" where
  "conversationOf store paperID = (case conversations store paperID of None \<Rightarrow> [] | Some ms \<Rightarrow> ms)"

definition refreshDue :: "paperStore \<Rightarrow> jsstring \<Rightarrow> bool" where
  "refreshDue store paperID \<longleftrightarrow>
     4 \<le> length (conversationOf store paperID) \<and>
     (case memories store paperID of
        None \<Rightarrow> True
      | Some m \<Rightarrow> MEMORY_REFRESH_MIN_NEW_MESSAGES
                    \<le> int (length (conversationOf store paperID)) - int (mem_turnCount m))"

definition memoryInvariant :: "paperStore \<Rightarrow> bool" where
  "memoryInvariant store \<longleftrightarrow>
     (\<forall>paperID. length (conversationOf store paperID) \<le> MAX_STORED_MESSAGES) \<and>
     (\<forall>paperID m. memories store paperID = Some m \<longrightarrow>
                   mem_turnCount m \<le> length (conversationOf store paperID))"

text \<open>
  The invariant of a run: that of the store, and every pending request has read a
  conversation no longer than the present one.  An operation is safe when it is not a
  clear of a paper for which a request is pending; \<open>safeRun\<close> holds of the runs whose
  operations are all safe.
\<close>

definition runInvariant :: "appState \<times> memoryRequest list \<Rightarrow> bool" where
  "runInvariant = (\<lambda>(st, pending).
     memoryInvariant (currentStore st) \<and>
     (\<forall>request\<in>set pending.
        mr_turnCount request \<le> length (conversationOf (currentStore st) (mr_paperID request))))"

fun safeOperation :: "memoryRequest list \<Rightarrow> storeOperation \<Rightarrow> bool" where
  "safeOperation pending (Clear paperID) = (paperID \<notin> mr_paperID ` set pending)"
| "safeOperation pending operation = True"

fun safeRun :: "appState \<times> memoryRequest list \<Rightarrow> storeOperation list \<Rightarrow> bool" where
  "safeRun run [] = True"
| "safeRun run (operation # ops) =
     (safeOperation (snd run) operation \<and> safeRun (applyOperation run operation) ops)"

text \<open>Examples: a chat service that answers \<open>summary\<close>, one that fails, and messages.\<close>

definition exampleLLM :: "jsstring \<Rightarrow> jsstring \<Rightarrow> js_error + jsstring" where
  "exampleLLM title transcript = Inr (ascii '' summary '')"

definition failingLLM :: "jsstring \<Rightarrow> jsstring \<Rightarrow> js_error + jsstring" where
  "failingLLM title transcript = Inl (Error (ascii ''LLM request failed.''))"

definition exampleTurn :: "chatMessage list" where
  "exampleTurn = [\<lparr>cm_role = User, cm_content = ascii ''q'', cm_createdAt = ascii ''t''\<rparr>,
                  \<lparr>cm_role = Assistant, cm_content = ascii ''a'', cm_createdAt = ascii ''t''\<rparr>]"

text \<open>The state after two question and answer pairs were appended to the empty store.\<close>

definition exampleChat :: appState where
  "exampleChat = fst (runOperations (initialState None)
     [Append (ascii ''p'') exampleTurn, Append (ascii ''p'') exampleTurn])"

text \<open>
  A run in which the chat is cleared while the refresh awaits the chat request: two
  question and answer pairs, the start of the refresh, the clear, the end of the request.
\<close>

definition exampleRace :: "storeOperation list" where
  "exampleRace =
     [Append (ascii ''p'') exampleTurn, Append (ascii ''p'') exampleTurn,
      RefreshStart (ascii ''p'') (ascii ''T''),
      Clear (ascii ''p''),
      RefreshFinish 0 (Inr (ascii '' summary '')) (ascii ''t1'')]"

section \<open>Paper summary and its progress reports\<close>

text \<open>
  The progress handler of a summary request receives \<open>{percent, stage}\<close> objects.  The
  model keeps the reports delivered so far in a list; \<open>handler\<close> tells whether a handler
  was passed.
\<close>

record summaryProgress =
  sp_percent :: real
  sp_stage :: jsstring

definition reportSummaryProgress ::
    "bool \<Rightarrow> real \<Rightarrow> jsstring \<Rightarrow> summaryProgress list \<Rightarrow> summaryProgress list" where
  "reportSummaryProgress handler percent stage reports =
     (if \<not> handler then reports
      else reports @ [\<lparr>sp_percent = max 0 (min 100 percent), sp_stage = stage\<rparr>])"

text \<open>The stage labels and the other Korean string literals of the summary, as code units.\<close>

definition STAGE_LOADING :: jsstring where
  "STAGE_LOADING =
     [
      0xB17C, 0xBB38, 0x0020, 0xB85C, 0xB529]"

definition STAGE_INDEX :: jsstring where
  "STAGE_INDEX =
     [
      0xD14D, 0xC2A4, 0xD2B8, 0x0020, 0xC778, 0xB371, 0xC2A4, 0x0020,
      0xC900, 0xBE44]"

definition STAGE_FALLBACK :: jsstring where
  "STAGE_FALLBACK =
     [
      0xD3F4, 0xBC31, 0x0020, 0xC694, 0xC57D, 0x0020, 0xC2E4, 0xD589]"

definition STAGE_DONE :: jsstring where
  "STAGE_DONE =
     [
      0xC694, 0xC57D, 0x0020, 0xC644, 0xB8CC]"

definition STAGE_CONTEXTS :: jsstring where
  "STAGE_CONTEXTS =
     [
      0x0050, 0x0044, 0x0046, 0x0020, 0xBAA9, 0xCC28, 0x0020, 0xCEE8,
      0xD14D, 0xC2A4, 0xD2B8, 0x0020, 0xCD94, 0xCD9C]"

definition STAGE_SECTION :: jsstring where
  "STAGE_SECTION =
     [
      0xC18C, 0xBAA9, 0xCC28, 0x0020, 0xC694, 0xC57D, 0x003A, 0x0020]"

definition STAGE_COMPOSE :: jsstring where
  "STAGE_COMPOSE =
     [
      0xCD5C, 0xC885, 0x0020, 0xC694, 0xC57D, 0x0020, 0xD3B8, 0xC9D1]"

definition STAGE_SINGLE_CONTEXT :: jsstring where
  "STAGE_SINGLE_CONTEXT =
     [
      0xB2E8, 0xC77C, 0x0020, 0xD328, 0xC2A4, 0x0020, 0xCEE8, 0xD14D,
      0xC2A4, 0xD2B8, 0x0020, 0xAD6C, 0xC131]"

definition STAGE_SINGLE_REQUEST :: jsstring where
  "STAGE_SINGLE_REQUEST =
     [
      0xB2E8, 0xC77C, 0x0020, 0xD328, 0xC2A4, 0x0020, 0xC694, 0xC57D,
      0x0020, 0xC0DD, 0xC131]"

definition NO_EVIDENCE :: jsstring where
  "NO_EVIDENCE =
     [
      0xADFC, 0xAC70, 0x0020, 0xBD80, 0xC871]"

definition NO_INFORMATION :: jsstring where
  "NO_INFORMATION =
     [
      0xC815, 0xBCF4, 0x0020, 0xBD80, 0xC871]"

definition UNCLEAR :: jsstring where
  "UNCLEAR =
     [
      0xBD88, 0xBA85, 0xD655]"

definition TLDR_SUFFIX :: jsstring where
  "TLDR_SUFFIX =
     [
      0xC758, 0x0020, 0xC18C, 0xBAA9, 0xCC28, 0xBCC4, 0x0020, 0xD575,
      0xC2EC, 0x0020, 0xB0B4, 0xC6A9, 0xC744, 0x0020, 0xC0C1, 0xC138,
      0x0020, 0xC815, 0xB9AC, 0xD588, 0xC2B5, 0xB2C8, 0xB2E4, 0x002E]"

definition HEADING_SECTIONS :: jsstring where
  "HEADING_SECTIONS =
     [
      0x0023, 0x0023, 0x0020, 0xC18C, 0xBAA9, 0xCC28, 0xBCC4, 0x0020,
      0xC0C1, 0xC138, 0x0020, 0xC694, 0xC57D]"

definition NO_SECTIONS :: jsstring where
  "NO_SECTIONS =
     [
      0xC18C, 0xBAA9, 0xCC28, 0xB97C, 0x0020, 0xCC3E, 0xC9C0, 0x0020,
      0xBABB, 0xD588, 0xC2B5, 0xB2C8, 0xB2E4, 0x002E]"

definition HEADING_UNCERTAIN :: jsstring where
  "HEADING_UNCERTAIN =
     [
      0x0023, 0x0023, 0x0020, 0xD655, 0xC778, 0xC774, 0x0020, 0xD544,
      0xC694, 0xD55C, 0x0020, 0xD56D, 0xBAA9]"

definition NONE_UNCERTAIN :: jsstring where
  "NONE_UNCERTAIN =
     [
      0x002D, 0x0020, 0xC5C6, 0xC74C]"

text \<open>
  A section context extracted from the PDF outline, and a section of the summary plan;
  of both only the fields that the summary pipeline reads for its control flow, its
  progress reports and its answer.
\<close>

record pdfSectionContext =
  sc_title :: jsstring
  sc_path :: jsstring
  sc_contextText :: jsstring

record summaryPlanSection =
  sps_id :: jsstring
  sps_title :: jsstring

record sectionDraft =
  sd_section :: summaryPlanSection
  sd_evidence :: "textChunk list"
  sd_draft :: jsstring

record summaryResult =
  sr_answer :: jsstring
  sr_usedChunks :: nat

text \<open>
  \<open>prepareBookmarkContextSummaryPlan\<close>: the sections of the plan and the \<open>Map\<close> from
  section id to context, in insertion order; setting an id again replaces its context.
\<close>

definition prepareBookmarkContextSummaryPlan ::
    "pdfSectionContext list \<Rightarrow> summaryPlanSection list \<times> (jsstring \<times> pdfSectionContext) list" where
  "prepareBookmarkContextSummaryPlan contexts =
     (let selected = filter (\<lambda>entry. trim (sc_title entry) \<noteq> []) contexts;
          keyed = map (\<lambda>(index, entry).
                         (ascii ''toc-'' @ (if sc_path entry \<noteq> [] then sc_path entry
                                            else ascii (decimal (index + 1))), entry))
                    (enumerate 0 selected)
      in (map (\<lambda>(sectionID, entry). \<lparr>sps_id = sectionID, sps_title = sc_title entry\<rparr>) keyed,
          fold (\<lambda>(sectionID, entry) m. AList.update sectionID entry m) keyed []))"

definition buildContextChunkFromPdfSection :: "pdfSectionContext \<Rightarrow> textChunk" where
  "buildContextChunkFromPdfSection section =
     (let raw = trim (sc_contextText section);
          clipped = (if MAX_CONTEXT_CHARS < length raw
                     then trim (sliceStr raw 0 MAX_CONTEXT_CHARS) @ ascii ''...'' else raw)
      in \<lparr>chunk_id = ascii ''toc:'' @ (if sc_path section \<noteq> [] then sc_path section
                                         else sc_title section),
          chunk_text = clipped, chunk_start = 0, chunk_end = length clipped\<rparr>)"

text \<open>
  The chat requests are external calls.  \<open>sectionRequest section chunk\<close> is the outcome
  of the request of \<open>draftSummarySection\<close>: the text returned or the error thrown.
\<close>

definition draftSummarySection ::
    "(summaryPlanSection \<Rightarrow> textChunk \<Rightarrow> js_error + jsstring) \<Rightarrow> summaryPlanSection \<Rightarrow> textChunk
       \<Rightarrow> js_error + jsstring" where
  "draftSummarySection sectionRequest section chunk =
     (case sectionRequest section chunk of Inl e \<Rightarrow> Inl e | Inr sectionDraft \<Rightarrow> Inr (trim sectionDraft))"

text \<open>
  The \<open>for\<close> loop of \<open>runBookmarkContextSummaryPipeline\<close> over the sections of the plan,
  with its variables \<open>step\<close> and \<open>sectionDrafts\<close> and the reports as arguments.  An
  error of \<open>draftSummarySection\<close> is caught and logged, the section has no draft then.
\<close>

fun draftSections ::
    "(summaryPlanSection \<Rightarrow> textChunk \<Rightarrow> js_error + jsstring) \<Rightarrow> bool \<Rightarrow> nat
       \<Rightarrow> (jsstring \<times> pdfSectionContext) list \<Rightarrow> summaryPlanSection list
       \<Rightarrow> nat \<Rightarrow> sectionDraft list \<Rightarrow> summaryProgress list
       \<Rightarrow> nat \<times> sectionDraft list \<times> summaryProgress list" where
  "draftSections sectionRequest handler totalSteps contextBySectionID [] step sectionDrafts reports =
     (step, sectionDrafts, reports)"
| "draftSections sectionRequest handler totalSteps contextBySectionID (section # sections) step
      sectionDrafts reports =
     (let step' = step + 1;
          reports' = reportSummaryProgress handler (24 + (72 * real step') / real totalSteps)
                       (STAGE_SECTION @ sps_title section) reports;
          sectionDrafts' =
            (case map_of contextBySectionID (sps_id section) of
               None \<Rightarrow> sectionDrafts
             | Some context \<Rightarrow>
                 if trim (sc_contextText context) = [] then sectionDrafts
                 else
                   (let chunk = buildContextChunkFromPdfSection context
                    in case draftSummarySection sectionRequest section chunk of
                         Inl error \<Rightarrow> sectionDrafts
                       | Inr draft \<Rightarrow>
                           sectionDrafts @ [\<lparr>sd_section = section, sd_evidence = [chunk],
                                              sd_draft = draft\<rparr>]))
      in draftSections sectionRequest handler totalSteps contextBySectionID sections step'
           sectionDrafts' reports')"

text \<open>\<open>haystack.includes(needle)\<close>, for the alternatives of the regular expression.\<close>

fun includesText :: "jsstring \<Rightarrow> jsstring \<Rightarrow> bool" where
  "includesText needle [] = (needle = [])"
| "includesText needle (c # cs) = (prefix needle (c # cs) \<or> includesText needle cs)"

text \<open>
  \<open>composeSectionedSummary\<close>.  \<open>draftByID\<close> is a \<open>Map\<close> from section id to draft, the
  last draft of an id wins.
\<close>

definition composeSectionedSummary ::
    "paperIndex \<Rightarrow> summaryPlanSection list \<Rightarrow> sectionDraft list \<Rightarrow> jsstring" where
  "composeSectionedSummary index sections sectionDrafts =
     (let draftByID = map_of (rev (map (\<lambda>draft. (sps_id (sd_section draft), draft)) sectionDrafts));
          ordered = joinWith [0x000A, 0x000A]
            (map (\<lambda>section.
                    case draftByID (sps_id section) of
                      None \<Rightarrow> ascii ''### '' @ sps_title section @ [0x000A] @ NO_EVIDENCE
                    | Some match \<Rightarrow>
                        if trim (sd_draft match) = []
                        then ascii ''### '' @ sps_title section @ [0x000A] @ NO_EVIDENCE
                        else ascii ''### '' @ sps_title section @ [0x000A] @ trim (sd_draft match))
               sections);
          uncertain = map (\<lambda>section. ascii ''- '' @ sps_title section)
            (filter (\<lambda>section.
                       (let draftText = (case draftByID (sps_id section) of
                                           None \<Rightarrow> [] | Some match \<Rightarrow> sd_draft match)
                        in includesText NO_EVIDENCE draftText \<or> includesText NO_INFORMATION draftText
                           \<or> includesText UNCLEAR draftText))
               sections)
      in joinWith [0x000A]
           [ascii ''TL;DR: '' @ pi_title index @ TLDR_SUFFIX,
            [],
            HEADING_SECTIONS,
            if ordered = [] then NO_SECTIONS else ordered,
            [],
            HEADING_UNCERTAIN,
            if uncertain = [] then NONE_UNCERTAIN else joinWith [0x000A] uncertain])"

text \<open>
  What a summary request meets outside the program: the attachment found by
  \<open>resolvePaper\<close> (\<open>None\<close>: no attachment item, \<open>Some n\<close>: an attachment item whose
  \<open>Number(id || 0)\<close> is \<open>n\<close>) or its error, the index returned by \<open>ensurePaperIndex\<close> or
  its error, the section contexts returned by \<open>extractSectionContextsFromAttachment\<close> or
  its error, and the outcomes of the chat requests; \<open>se_singlePassRequest k\<close> is the
  outcome of the request in the \<open>k\<close>-th run of \<open>summarizePaperSinglePass\<close>, counted
  from 0.
\<close>

record summaryEnv =
  se_attachment :: "js_error + nat option"
  se_index :: "js_error + paperIndex"
  se_contexts :: "js_error + pdfSectionContext list"
  se_sectionRequest :: "summaryPlanSection \<Rightarrow> textChunk \<Rightarrow> js_error + jsstring"
  se_singlePassRequest :: "nat \<Rightarrow> js_error + jsstring"

text \<open>
  An asynchronous function that reports progress returns its result, or the error it
  throws, together with the reports delivered up to then.
\<close>

definition runBookmarkContextSummaryPipeline ::
    "summaryEnv \<Rightarrow> bool \<Rightarrow> nat \<Rightarrow> paperIndex \<Rightarrow> summaryProgress list
       \<Rightarrow> (js_error + summaryResult) \<times> summaryProgress list" where
  "runBookmarkContextSummaryPipeline env handler attachmentID index reports =
     (if attachmentID = 0
      then (Inl (Error (ascii ''PDF attachment is required for bookmark-context summary.'')), reports)
      else
        (let reports1 = reportSummaryProgress handler 12 STAGE_CONTEXTS reports
         in case se_contexts env of
              Inl e \<Rightarrow> (Inl e, reports1)
            | Inr contexts \<Rightarrow>
                (case prepareBookmarkContextSummaryPlan contexts of (sections, contextBySectionID) \<Rightarrow>
                   if sections = []
                   then (Inl (Error (ascii ''No bookmark sections available for summary.'')), reports1)
                   else
                     (let totalSteps = max 1 (length sections + 1)
                      in case draftSections (se_sectionRequest env) handler totalSteps
                                contextBySectionID sections 0 [] reports1 of
                           (step, sectionDrafts, reports2) \<Rightarrow>
                             (let reports3 = reportSummaryProgress handler
                                    (24 + (72 * real (step + 1)) / real totalSteps) STAGE_COMPOSE reports2;
                                  answerDraft = composeSectionedSummary index sections sectionDrafts
                              in (Inr \<lparr>sr_answer = trim answerDraft,
                                       sr_usedChunks =
                                         length (remdups (map chunk_id (concat (map sd_evidence sectionDrafts))))\<rparr>,
                                  reports3))))))"

definition summarizePaperSinglePass ::
    "summaryEnv \<Rightarrow> bool \<Rightarrow> nat \<Rightarrow> paperIndex \<Rightarrow> summaryProgress list
       \<Rightarrow> (js_error + summaryResult) \<times> summaryProgress list" where
  "summarizePaperSinglePass env handler run index reports =
     (let reports1 = reportSummaryProgress handler 55 STAGE_SINGLE_CONTEXT reports;
          contextChunks = selectSummaryChunks index;
          reports2 = reportSummaryProgress handler 75 STAGE_SINGLE_REQUEST reports1
      in case se_singlePassRequest env run of
           Inl e \<Rightarrow> (Inl e, reports2)
         | Inr answerDraft \<Rightarrow>
             (Inr \<lparr>sr_answer = trim answerDraft, sr_usedChunks = length contextChunks\<rparr>, reports2))"

text \<open>
  The outer \<open>try\<close> block of \<open>summarizePaper\<close>: the bookmark pipeline when there is an
  attachment item, its error caught and logged by the inner \<open>catch\<close>, then the single
  pass when the answer is still empty.
\<close>

definition summaryAttempt ::
    "summaryEnv \<Rightarrow> bool \<Rightarrow> nat option \<Rightarrow> paperIndex \<Rightarrow> summaryProgress list
       \<Rightarrow> (js_error + summaryResult) \<times> summaryProgress list" where
  "summaryAttempt env handler attachment index reports =
     (case (case attachment of
              None \<Rightarrow> (\<lparr>sr_answer = [], sr_usedChunks = 0\<rparr>, reports)
            | Some attachmentID \<Rightarrow>
                (case runBookmarkContextSummaryPipeline env handler attachmentID index reports of
                   (Inl tocError, reports1) \<Rightarrow> (\<lparr>sr_answer = [], sr_usedChunks = 0\<rparr>, reports1)
                 | (Inr tocResult, reports1) \<Rightarrow> (tocResult, reports1)))
      of (result, reports1) \<Rightarrow>
        if trim (sr_answer result) = []
        then summarizePaperSinglePass env handler 0 index
               (reportSummaryProgress handler 45 STAGE_FALLBACK reports1)
        else (Inr result, reports1))"

text \<open>
  \<open>summarizePaper\<close> up to its last report.  The outer \<open>catch\<close> clause reports the
  fallback and runs the single pass, for the second time when the error came from the
  single pass of the \<open>try\<close> block.  The conversation is appended after the last report.
\<close>

definition summarizePaper ::
    "summaryEnv \<Rightarrow> bool \<Rightarrow> (js_error + summaryResult) \<times> summaryProgress list" where
  "summarizePaper env handler =
     (let reports1 = reportSummaryProgress handler 3 STAGE_LOADING []
      in case se_attachment env of
           Inl e \<Rightarrow> (Inl e, reports1)
         | Inr attachment \<Rightarrow>
             (let reports2 = reportSummaryProgress handler 8 STAGE_INDEX reports1
              in case se_index env of
                   Inl e \<Rightarrow> (Inl e, reports2)
                 | Inr index \<Rightarrow>
                     (case (case summaryAttempt env handler attachment index reports2 of
                              (Inr result, reports3) \<Rightarrow> (Inr result, reports3)
                            | (Inl error, reports3) \<Rightarrow>
                                summarizePaperSinglePass env handler 1 index
                                  (reportSummaryProgress handler 45 STAGE_FALLBACK reports3))
                      of (Inl e, reports4) \<Rightarrow> (Inl e, reports4)
                       | (Inr result, reports4) \<Rightarrow>
                           (Inr result, reportSummaryProgress handler 100 STAGE_DONE reports4))))"

text \<open>
  The reports are non-decreasing and none is above \<open>bound\<close>.
\<close>

definition reportedUpTo :: "real \<Rightarrow> summaryProgress list \<Rightarrow> bool" where
  "reportedUpTo bound reports \<longleftrightarrow>
     sorted (map sp_percent reports) \<and> (\<forall>r\<in>set reports. sp_percent r \<le> bound)"

text \<open>
  A summary request for a paper without attachment whose first chat request fails (the
  endpoint answers with an error) and whose second one succeeds.
\<close>

definition exampleSummaryEnv :: summaryEnv where
  "exampleSummaryEnv =
     \<lparr>se_attachment = Inr None,
      se_index = Inr exampleIndex,
      se_contexts = Inr [],
      se_sectionRequest = (\<lambda>section chunk. Inr (ascii ''draft'')),
      se_singlePassRequest =
        (\<lambda>run. if run = 0 then Inl (Error (ascii ''LLM request failed'')) else Inr (ascii ''summary''))\<rparr>"

section \<open>Proofs: text normalizer and chunker\<close>

lemma stride_val: "stride = 1340" by (simp add: stride_def CHUNK_SIZE_def CHUNK_OVERLAP_def)

lemma all_dropWhile_iff: "(\<forall>x\<in>set (dropWhile P s). P x) \<longleftrightarrow> (\<forall>x\<in>set s. P x)"
  by (induction s) auto

lemma trim_eq_Nil_iff: "trim s = [] \<longleftrightarrow> (\<forall>c\<in>set s. isWhitespace c)"
  by (simp add: trim_def dropWhile_eq_Nil_conv all_dropWhile_iff)

lemma ids_ok_snoc:
  "ids_ok cs \<Longrightarrow> chunk_id c = ascii ''chunk-'' @ ascii (decimal (length cs + 1)) \<Longrightarrow> ids_ok (cs @ [c])"
  by (auto simp: ids_ok_def nth_append less_Suc_eq)

lemma chunkLoop_post:
  "chunks_inv text chunks start \<Longrightarrow> index = length chunks \<Longrightarrow> stride dvd start \<Longrightarrow>
   start < length text \<Longrightarrow> start = 0 \<or> start + CHUNK_OVERLAP < length text \<Longrightarrow>
   chunks_post text (chunkLoop text chunks index start)"
proof (induction "text" chunks index start rule: chunkLoop.induct)
  case (1 tx chunks index start)
  define n where "n = length tx"
  define ov where "ov = min CHUNK_OVERLAP (max 0 (CHUNK_SIZE - 1))"
  define e where "e = min (length tx) (start + CHUNK_SIZE)"
  define ct where "ct = trim (sliceStr tx start e)"
  define c where "c = \<lparr>chunk_id = ascii ''chunk-'' @ ascii (decimal (index + 1)),
                        chunk_text = ct, chunk_start = start, chunk_end = e\<rparr>"
  define chunks' where "chunks' = (if ct \<noteq> [] then chunks @ [c] else chunks)"
  define index' where "index' = (if ct \<noteq> [] then index + 1 else index)"
  have inv: "chunks_inv tx chunks start" and idx: "index = length chunks"
    and dv: "stride dvd start" and lt: "start < n"
    and vis: "start = 0 \<or> start + CHUNK_OVERLAP < n"
    using "1.prems" by (auto simp: n_def)
  have blank_iff: "blankWindow tx start \<longleftrightarrow> ct = []"
    by (simp add: blankWindow_def ct_def e_def n_def)
  have unfold: "chunkLoop tx chunks index start =
      (if n \<le> e then chunks'
       else chunkLoop tx chunks' index' (nat (max (int start + 1) (int e - int ov))))"
    using lt
    by (subst chunkLoop.simps)
       (simp add: Let_def n_def e_def ct_def c_def chunks'_def index'_def ov_def)
  have ov: "ov = 260" by (simp add: ov_def CHUNK_OVERLAP_def CHUNK_SIZE_def)
  have idx': "index' = length chunks'"
    by (simp add: index'_def chunks'_def idx)
  have ids': "ids_ok chunks'"
    using inv by (auto simp: chunks'_def chunks_inv_def c_def idx intro!: ids_ok_snoc)
  have wok: "ct \<noteq> [] \<Longrightarrow> window_ok tx c"
    using dv lt vis by (simp add: window_ok_def c_def ct_def e_def n_def)
  have sorted': "sorted_wrt (\<lambda>c d. chunk_start c < chunk_start d \<and> chunk_end c < chunk_end d) chunks'"
    using inv lt
    by (auto simp: chunks'_def chunks_inv_def sorted_wrt_append c_def e_def n_def window_ok_def)
  show ?case
  proof (cases "n \<le> e")
    case True
    then have en: "e = n" by (simp add: e_def n_def)
    have fin: "\<not> isWhitespace (last tx) \<Longrightarrow> ct \<noteq> []"
    proof -
      assume nw: "\<not> isWhitespace (last tx)"
      have "tx \<noteq> []" using lt by (auto simp: n_def)
      have "last tx \<in> set (sliceStr tx start e)"
        using lt \<open>tx \<noteq> []\<close>
        by (metis en n_def sliceStr_def drop_eq_Nil last_drop last_in_set leD take_all_iff diff_le_self length_drop order_refl)
      then show "ct \<noteq> []" using nw by (auto simp: ct_def trim_eq_Nil_iff)
    qed
    have cover: "\<forall>s. (s = 0 \<or> s + CHUNK_OVERLAP < n) \<and> stride dvd s \<and> \<not> blankWindow tx s \<longrightarrow> s \<in> chunk_start ` set chunks'"
    proof (intro allI impI)
      fix s assume sh: "(s = 0 \<or> s + CHUNK_OVERLAP < n) \<and> stride dvd s \<and> \<not> blankWindow tx s"
      then have s: "s = 0 \<or> s + CHUNK_OVERLAP < n" and h: "stride dvd s \<and> \<not> blankWindow tx s" by auto
      show "s \<in> chunk_start ` set chunks'"
      proof (cases "s < start")
        case True
        then show ?thesis using inv h by (auto simp: chunks_inv_def chunks'_def)
      next
        case False
        obtain a where a: "start = stride * a" using dv by (auto simp: dvd_def)
        obtain b where b: "s = stride * b" using h by (auto simp: dvd_def)
        have "s < start + stride"
          using s \<open>n \<le> e\<close> by (auto simp: e_def n_def stride_val CHUNK_SIZE_def CHUNK_OVERLAP_def)
        then have "s = start"
          using False unfolding a b stride_val by auto
        then show ?thesis using h blank_iff by (auto simp: chunks'_def c_def)
      qed
    qed
    have "chunks_post tx chunks'"
      unfolding chunks_post_def
      using ids' sorted' cover inv wok fin
      by (auto simp: chunks'_def chunks_inv_def n_def c_def en)
    then show ?thesis using True unfold by simp
  next
    case False
    then have e: "e = start + CHUNK_SIZE" and eltn: "start + CHUNK_SIZE < n" by (auto simp: e_def n_def)
    define start' where "start' = nat (max (int start + 1) (int e - int ov))"
    have start': "start' = start + stride"
      by (simp add: start'_def e ov stride_val CHUNK_SIZE_def)
    have lt': "start' < n" using eltn by (simp add: start' stride_val CHUNK_SIZE_def)
    have inv': "chunks_inv tx chunks' start'"
      unfolding chunks_inv_def
    proof (intro conjI)
      show "ids_ok chunks'" by (rule ids')
      show "\<forall>c\<in>set chunks'. window_ok tx c \<and> chunk_start c < start' \<and> chunk_start c + CHUNK_SIZE < length tx"
        using inv wok eltn
        by (auto simp: chunks'_def chunks_inv_def start' stride_val n_def c_def)
      show "sorted_wrt (\<lambda>c d. chunk_start c < chunk_start d \<and> chunk_end c < chunk_end d) chunks'"
        by (rule sorted')
      show "\<forall>s. s < start' \<and> stride dvd s \<and> \<not> blankWindow tx s \<longrightarrow> s \<in> chunk_start ` set chunks'"
      proof (intro allI impI)
        fix s assume sh: "s < start' \<and> stride dvd s \<and> \<not> blankWindow tx s"
        then have s: "s < start'" and h: "stride dvd s \<and> \<not> blankWindow tx s" by auto
        show "s \<in> chunk_start ` set chunks'"
        proof (cases "s < start")
          case True
          then show ?thesis using inv h by (auto simp: chunks_inv_def chunks'_def)
        next
          case False
          obtain a where a: "start = stride * a" using dv by (auto simp: dvd_def)
          obtain b where b: "s = stride * b" using h by (auto simp: dvd_def)
          have "s = start"
            using False s unfolding start' a b stride_val by auto
          then show ?thesis using h blank_iff by (auto simp: chunks'_def c_def)
        qed
      qed
    qed
    have lt_raw: "start < length tx" using lt by (simp add: n_def)
    have nle_raw: "\<not> length tx \<le> min (length tx) (start + CHUNK_SIZE)"
      using False by (simp add: e_def n_def)
    have vis': "start' + CHUNK_OVERLAP < length tx"
      using eltn by (simp add: start' stride_val CHUNK_SIZE_def CHUNK_OVERLAP_def n_def)
    have IH: "chunks_inv tx chunks' start' \<Longrightarrow> index' = length chunks' \<Longrightarrow> stride dvd start' \<Longrightarrow>
        start' < length tx \<Longrightarrow> start' = 0 \<or> start' + CHUNK_OVERLAP < length tx \<Longrightarrow>
        chunks_post tx (chunkLoop tx chunks' index' start')"
      unfolding start'_def chunks'_def index'_def c_def ct_def e_def ov_def
      by (rule "1.IH"[OF lt_raw refl refl refl refl refl nle_raw])
    have "chunks_post tx (chunkLoop tx chunks' index' start')"
      using inv' idx' dv lt' vis' by (intro IH) (auto simp: start' n_def)
    then show ?thesis using False unfold by (simp add: start'_def)
  qed
qed

lemma last_dropWhile_ne: "dropWhile P xs \<noteq> [] \<Longrightarrow> last (dropWhile P xs) = last xs"
  by (metis takeWhile_dropWhile_id last_appendR)

lemma trim_idem: "trim (trim s) = trim s"
proof (cases "trim s = []")
  case True
  show ?thesis unfolding True by (simp add: trim_def)
next
  case False
  define t where "t = dropWhile isWhitespace s"
  define r where "r = dropWhile isWhitespace (rev t)"
  have u: "trim s = rev r" by (simp add: trim_def t_def r_def)
  have rne: "r \<noteq> []" using False u by simp
  then have tne: "t \<noteq> []" by (auto simp: r_def)
  have hr: "\<not> isWhitespace (hd r)" using rne unfolding r_def by (rule hd_dropWhile)
  have ht: "\<not> isWhitespace (hd t)" using tne unfolding t_def by (rule hd_dropWhile)
  have "last r = last (rev t)" using rne unfolding r_def by (simp add: last_dropWhile_ne)
  then have "hd (rev r) = hd t" using rne tne by (simp add: hd_rev last_rev)
  then have 1: "dropWhile isWhitespace (rev r) = rev r"
    using ht rne by (simp add: dropWhile_eq_self_iff)
  have 2: "dropWhile isWhitespace r = r"
    using hr by (simp add: dropWhile_eq_self_iff)
  show ?thesis by (simp add: u) (simp add: trim_def 1 2)
qed

lemma trim_last: "trim s \<noteq> [] \<Longrightarrow> \<not> isWhitespace (last (trim s))"
proof -
  assume ne: "trim s \<noteq> []"
  define r where "r = dropWhile isWhitespace (rev (dropWhile isWhitespace s))"
  have "r \<noteq> []" using ne by (simp add: trim_def r_def)
  then have "\<not> isWhitespace (hd r)" unfolding r_def by (rule hd_dropWhile)
  then show ?thesis using \<open>r \<noteq> []\<close> by (simp add: trim_def r_def[symmetric] last_rev)
qed

lemma chunkText_post: "text \<noteq> [] \<Longrightarrow> chunks_post text (chunkText text)"
  unfolding chunkText_def
  by (simp, rule chunkLoop_post) (auto simp: chunks_inv_def ids_ok_def)

lemma normalizeText_trimmed:
  "normalizeText raw \<noteq> [] \<Longrightarrow> \<not> isWhitespace (last (normalizeText raw))"
  unfolding normalizeText_def by (rule trim_last)

lemma chunks_post_adjacent:
  assumes post: "chunks_post text cs" and i: "Suc i < length cs"
  shows "chunk_start (cs ! i) < chunk_start (cs ! Suc i) \<and>
         chunk_end (cs ! i) < chunk_end (cs ! Suc i) \<and>
         (chunk_start (cs ! Suc i) + CHUNK_OVERLAP = chunk_end (cs ! i) \<or>
          blankWindow text (chunk_end (cs ! i) - CHUNK_OVERLAP))"
proof -
  let ?c = "cs ! i" and ?d = "cs ! Suc i"
  have srt: "\<And>a b. a < b \<Longrightarrow> b < length cs \<Longrightarrow>
      chunk_start (cs ! a) < chunk_start (cs ! b) \<and> chunk_end (cs ! a) < chunk_end (cs ! b)"
    using post by (simp add: chunks_post_def sorted_wrt_iff_nth_less)
  have wok: "\<And>c. c \<in> set cs \<Longrightarrow> window_ok text c"
    using post by (simp add: chunks_post_def)
  have cd: "chunk_start ?c < chunk_start ?d" "chunk_end ?c < chunk_end ?d"
    using srt[of i "Suc i"] i by auto
  have wc: "window_ok text ?c" and wd: "window_ok text ?d" using i by (auto intro!: wok)
  have ec: "chunk_end ?c = chunk_start ?c + CHUNK_SIZE" and ltn: "chunk_end ?c < length text"
    using wc wd cd by (auto simp: window_ok_def)
  define s where "s = chunk_start ?c + stride"
  have s_eq: "chunk_end ?c - CHUNK_OVERLAP = s" "s + CHUNK_OVERLAP = chunk_end ?c"
    by (auto simp: s_def ec stride_val CHUNK_SIZE_def CHUNK_OVERLAP_def)
  obtain a where a: "chunk_start ?c = stride * a" using wc by (auto simp: window_ok_def dvd_def)
  obtain b where b: "chunk_start ?d = stride * b" using wd by (auto simp: window_ok_def dvd_def)
  have ge: "s \<le> chunk_start ?d" using cd(1) unfolding s_def a b stride_val by auto
  have "chunk_start ?d = s" if nb: "\<not> blankWindow text s"
  proof -
    have "stride dvd s" using wc by (simp add: s_def window_ok_def)
    then have "s \<in> chunk_start ` set cs"
      using post nb ltn s_eq(2) by (simp add: chunks_post_def)
    then obtain j where j: "j < length cs" "chunk_start (cs ! j) = s"
      by (auto simp: in_set_conv_nth)
    have "\<not> j \<le> i"
    proof
      assume "j \<le> i"
      then have "chunk_start (cs ! j) \<le> chunk_start ?c"
        using srt[of j i] i by (cases "j = i") auto
      then show False using j(2) by (simp add: s_def stride_val)
    qed
    then have "chunk_start ?d \<le> chunk_start (cs ! j)"
      using srt[of "Suc i" j] j(1) by (cases "j = Suc i") auto
    then show ?thesis using ge j(2) by simp
  qed
  then show ?thesis using cd s_eq by auto
qed

lemma trim_hd: "trim s \<noteq> [] \<Longrightarrow> \<not> isWhitespace (hd (trim s))"
proof -
  assume ne: "trim s \<noteq> []"
  define t where "t = dropWhile isWhitespace s"
  define r where "r = dropWhile isWhitespace (rev t)"
  have u: "trim s = rev r" by (simp add: trim_def t_def r_def)
  have rne: "r \<noteq> []" using ne u by simp
  then have tne: "t \<noteq> []" by (auto simp: r_def)
  have ht: "\<not> isWhitespace (hd t)" using tne unfolding t_def by (rule hd_dropWhile)
  have "last r = last (rev t)" using rne unfolding r_def by (simp add: last_dropWhile_ne)
  then have "hd (rev r) = hd t" using rne tne by (simp add: hd_rev last_rev)
  then show ?thesis using ht by (simp add: u)
qed

lemma normalizeText_hd:
  "normalizeText raw \<noteq> [] \<Longrightarrow> \<not> isWhitespace (hd (normalizeText raw))"
  unfolding normalizeText_def by (rule trim_hd)

lemma chunks_post_first:
  assumes post: "chunks_post text cs" and ne: "text \<noteq> []" and hd: "\<not> isWhitespace (hd text)"
  shows "cs \<noteq> [] \<and> chunk_start (hd cs) = 0"
proof -
  have "hd text \<in> set (sliceStr text 0 (min (length text) (0 + CHUNK_SIZE)))"
    using ne by (cases "text") (simp_all add: sliceStr_def CHUNK_SIZE_def)
  then have "\<not> blankWindow text 0"
    using hd unfolding blankWindow_def trim_eq_Nil_iff by blast
  then have "0 \<in> chunk_start ` set cs"
    using post by (simp add: chunks_post_def)
  then obtain j where j: "j < length cs" "chunk_start (cs ! j) = 0"
    by (auto simp: in_set_conv_nth)
  have srt: "\<And>a b. a < b \<Longrightarrow> b < length cs \<Longrightarrow> chunk_start (cs ! a) < chunk_start (cs ! b)"
    using post by (simp add: chunks_post_def sorted_wrt_iff_nth_less)
  have "j = 0" using srt[of 0 j] j by (cases "j = 0") auto
  then show ?thesis using j by (cases cs) auto
qed

text \<open>
  Claim C1, as amended.  For a non-empty normalized text (the result of
  \<open>normalizeText\<close>), \<open>chunkText\<close> returns a non-empty list of chunks such that: the
  chunk identifiers are \<open>chunk-1\<close>, \<open>chunk-2\<close>, ... in emission order; every chunk is a
  window of the grid, it starts at a multiple of \<open>CHUNK_SIZE - CHUNK_OVERLAP = 1340\<close>
  that is 0 or lies more than the overlap before the end of the text and it ends
  \<open>CHUNK_SIZE = 1600\<close> characters later or at the end of the text, so that consecutive
  windows of the grid overlap by \<open>CHUNK_OVERLAP = 260\<close> characters; its text is the
  trimmed content of the window, is non-empty and is already trimmed; conversely every
  such window whose trimmed content is non-empty is a chunk; the offsets \<open>start\<close> and
  \<open>end\<close> strictly increase from one chunk to the next; the chunk after a chunk starts
  \<open>260\<close> characters before that chunk's end, unless the window there is blank and was
  skipped; the first chunk starts at 0; the overlap is smaller than the window size; and
  the last chunk ends at the length of the text.  For the empty text the result is empty.
\<close>

theorem chunkText_normalized:
  assumes "text = normalizeText raw"
  shows "chunkText [] = [] \<and>
    (text \<noteq> [] \<longrightarrow>
       chunkText text \<noteq> [] \<and>
       (\<forall>i<length (chunkText text).
          chunk_id (chunkText text ! i) = ascii ''chunk-'' @ ascii (decimal (i + 1))) \<and>
       (\<forall>c\<in>set (chunkText text).
          (CHUNK_SIZE - CHUNK_OVERLAP) dvd chunk_start c \<and>
          (chunk_start c = 0 \<or> chunk_start c + CHUNK_OVERLAP < length text) \<and>
          chunk_end c = min (length text) (chunk_start c + CHUNK_SIZE) \<and>
          chunk_text c = trim (sliceStr text (chunk_start c) (chunk_end c)) \<and>
          chunk_text c \<noteq> [] \<and> trim (chunk_text c) = chunk_text c) \<and>
       (\<forall>s. (CHUNK_SIZE - CHUNK_OVERLAP) dvd s \<and> (s = 0 \<or> s + CHUNK_OVERLAP < length text) \<and>
            trim (sliceStr text s (min (length text) (s + CHUNK_SIZE))) \<noteq> [] \<longrightarrow>
            (\<exists>c\<in>set (chunkText text). chunk_start c = s)) \<and>
       (\<forall>i. Suc i < length (chunkText text) \<longrightarrow>
          chunk_start (chunkText text ! i) < chunk_start (chunkText text ! Suc i) \<and>
          chunk_end (chunkText text ! i) < chunk_end (chunkText text ! Suc i) \<and>
          (chunk_start (chunkText text ! Suc i) + CHUNK_OVERLAP = chunk_end (chunkText text ! i) \<or>
           trim (sliceStr text (chunk_end (chunkText text ! i) - CHUNK_OVERLAP)
                   (min (length text) (chunk_end (chunkText text ! i) - CHUNK_OVERLAP + CHUNK_SIZE))) = [])) \<and>
       chunk_start (hd (chunkText text)) = 0 \<and>
       CHUNK_OVERLAP < CHUNK_SIZE \<and>
       chunk_end (last (chunkText text)) = length text)"
proof (intro conjI impI)
  show "chunkText [] = []" by (simp add: chunkText_def)
next
  assume ne: "text \<noteq> []"
  then have post: "chunks_post text (chunkText text)" by (rule chunkText_post)
  have nw: "\<not> isWhitespace (last text)"
    using ne normalizeText_trimmed[of raw] assms by simp
  have nh: "\<not> isWhitespace (hd text)"
    using ne normalizeText_hd[of raw] assms by simp
  show "chunkText text \<noteq> []" using post nw by (simp add: chunks_post_def)
  show "chunk_end (last (chunkText text)) = length text"
    using post nw by (simp add: chunks_post_def)
  show "chunk_start (hd (chunkText text)) = 0"
    using chunks_post_first[OF post ne nh] by simp
  show "\<forall>i<length (chunkText text).
          chunk_id (chunkText text ! i) = ascii ''chunk-'' @ ascii (decimal (i + 1))"
    using post by (simp add: chunks_post_def ids_ok_def)
  show "\<forall>c\<in>set (chunkText text).
          (CHUNK_SIZE - CHUNK_OVERLAP) dvd chunk_start c \<and>
          (chunk_start c = 0 \<or> chunk_start c + CHUNK_OVERLAP < length text) \<and>
          chunk_end c = min (length text) (chunk_start c + CHUNK_SIZE) \<and>
          chunk_text c = trim (sliceStr text (chunk_start c) (chunk_end c)) \<and>
          chunk_text c \<noteq> [] \<and> trim (chunk_text c) = chunk_text c"
  proof
    fix c assume "c \<in> set (chunkText text)"
    then have w: "window_ok text c" using post by (simp add: chunks_post_def)
    have "trim (chunk_text c) = chunk_text c"
      using w by (metis window_ok_def trim_idem)
    with w show "(CHUNK_SIZE - CHUNK_OVERLAP) dvd chunk_start c \<and>
          (chunk_start c = 0 \<or> chunk_start c + CHUNK_OVERLAP < length text) \<and>
          chunk_end c = min (length text) (chunk_start c + CHUNK_SIZE) \<and>
          chunk_text c = trim (sliceStr text (chunk_start c) (chunk_end c)) \<and>
          chunk_text c \<noteq> [] \<and> trim (chunk_text c) = chunk_text c"
      unfolding window_ok_def stride_def by blast
  qed
  show "\<forall>s. (CHUNK_SIZE - CHUNK_OVERLAP) dvd s \<and> (s = 0 \<or> s + CHUNK_OVERLAP < length text) \<and>
            trim (sliceStr text s (min (length text) (s + CHUNK_SIZE))) \<noteq> [] \<longrightarrow>
            (\<exists>c\<in>set (chunkText text). chunk_start c = s)"
  proof (intro allI impI)
    fix s
    assume "(CHUNK_SIZE - CHUNK_OVERLAP) dvd s \<and> (s = 0 \<or> s + CHUNK_OVERLAP < length text) \<and>
            trim (sliceStr text s (min (length text) (s + CHUNK_SIZE))) \<noteq> []"
    then have "(s = 0 \<or> s + CHUNK_OVERLAP < length text) \<and> stride dvd s \<and> \<not> blankWindow text s"
      by (simp add: stride_def blankWindow_def)
    then have "s \<in> chunk_start ` set (chunkText text)"
      using post unfolding chunks_post_def by blast
    then show "\<exists>c\<in>set (chunkText text). chunk_start c = s" by auto
  qed
  show "CHUNK_OVERLAP < CHUNK_SIZE" by (simp add: CHUNK_OVERLAP_def CHUNK_SIZE_def)
  show "\<forall>i. Suc i < length (chunkText text) \<longrightarrow>
          chunk_start (chunkText text ! i) < chunk_start (chunkText text ! Suc i) \<and>
          chunk_end (chunkText text ! i) < chunk_end (chunkText text ! Suc i) \<and>
          (chunk_start (chunkText text ! Suc i) + CHUNK_OVERLAP = chunk_end (chunkText text ! i) \<or>
           trim (sliceStr text (chunk_end (chunkText text ! i) - CHUNK_OVERLAP)
                   (min (length text) (chunk_end (chunkText text ! i) - CHUNK_OVERLAP + CHUNK_SIZE))) = [])"
    using chunks_post_adjacent[OF post] by (simp add: blankWindow_def)
qed

lemma replaceRuns_id: "\<forall>c\<in>set s. \<not> P c \<Longrightarrow> replaceRuns k P r s = s"
  by (induction s) auto

lemma trim_replicate: "\<not> isWhitespace c \<Longrightarrow> trim (replicate n c) = replicate n c"
  by (simp add: trim_def dropWhile_replicate)

lemma normalizeText_replicate_a: "normalizeText (replicate n 0x61) = replicate n 0x61"
  by (simp add: normalizeText_def replaceRuns_id trim_replicate isWhitespace_def map_replicate_const)

lemma chunkText_replicate_a:
  "map (\<lambda>c. (chunk_start c, chunk_end c)) (chunkText (replicate 1601 0x61)) = [(0, 1600), (1340, 1601)]"
  by (simp add: chunkText_def chunkLoop.simps[of _ _ _ 0] chunkLoop.simps[of _ _ _ 1340] Let_def
      CHUNK_SIZE_def CHUNK_OVERLAP_def sliceStr_def trim_replicate isWhitespace_def)

lemma gap_length: "length exampleGapText = 3002"
  by (simp add: exampleGapText_def length_concat sum_list_replicate)

lemma gap_blocks_ws: "c \<in> set (concat (replicate n [0x000A, 0x000A, 0x0020 :: code_unit])) \<Longrightarrow> isWhitespace c"
  by (auto simp: isWhitespace_def split: if_splits)

lemma gap_blocks_length: "length (concat (replicate n [0x000A, 0x000A, 0x0020 :: code_unit])) = 3 * n"
  by (simp add: length_concat sum_list_replicate)

lemma gap_window0: "trim (sliceStr exampleGapText 0 1600) \<noteq> []"
proof -
  have "0x0061 \<in> set (sliceStr exampleGapText 0 1600)"
    by (simp add: exampleGapText_def sliceStr_def)
  moreover have "\<not> isWhitespace (0x0061 :: code_unit)" by (simp add: isWhitespace_def)
  ultimately show ?thesis unfolding trim_eq_Nil_iff by blast
qed

lemma gap_window1: "trim (sliceStr exampleGapText 1340 2940) = []"
proof -
  have "sliceStr exampleGapText 1340 2940
      = take 1600 (drop 1339 (concat (replicate 1000 [0x000A, 0x000A, 0x0020 :: code_unit])))"
    by (simp add: exampleGapText_def sliceStr_def gap_blocks_length)
  then show ?thesis
    unfolding trim_eq_Nil_iff by (auto dest!: in_set_takeD in_set_dropD gap_blocks_ws)
qed

lemma gap_window2: "trim (sliceStr exampleGapText 2680 3002) \<noteq> []"
proof -
  have "0x0062 \<in> set (sliceStr exampleGapText 2680 3002)"
    by (simp add: exampleGapText_def sliceStr_def gap_blocks_length)
  moreover have "\<not> isWhitespace (0x0062 :: code_unit)" by (simp add: isWhitespace_def)
  ultimately show ?thesis unfolding trim_eq_Nil_iff by blast
qed

lemma gap_chunks:
  "map (\<lambda>c. (chunk_start c, chunk_end c)) (chunkText exampleGapText) = [(0, 1600), (2680, 3002)]"
proof -
  have ne: "exampleGapText \<noteq> []" by (simp add: exampleGapText_def)
  show ?thesis
    using gap_window0 gap_window1 gap_window2 ne
    by (simp add: chunkText_def chunkLoop.simps[of _ _ _ 0] chunkLoop.simps[of _ _ _ 1340]
        chunkLoop.simps[of _ _ _ 2680] Let_def gap_length CHUNK_SIZE_def CHUNK_OVERLAP_def)
qed

lemma gap_blocks_hd:
  "takeWhile (\<lambda>c. c = 0x0020) (concat (replicate n [0x000A, 0x000A, 0x0020 :: code_unit]) @ [0x0062]) = []"
  "dropWhile (\<lambda>c. c = 0x0020) (concat (replicate n [0x000A, 0x000A, 0x0020 :: code_unit]) @ [0x0062])
     = concat (replicate n [0x000A, 0x000A, 0x0020 :: code_unit]) @ [0x0062]"
  by (cases n; simp)+

lemma gap_spaces:
  "replaceRuns 2 (\<lambda>c. c = 0x0020) [0x0020]
      (concat (replicate n [0x000A, 0x000A, 0x0020 :: code_unit]) @ [0x0062])
     = concat (replicate n [0x000A, 0x000A, 0x0020]) @ [0x0062]"
  by (induction n) (simp_all add: gap_blocks_hd)

lemma gap_lines:
  "replaceRuns 3 (\<lambda>c. c = 0x000A) [0x000A, 0x000A]
      (concat (replicate n [0x000A, 0x000A, 0x0020 :: code_unit]) @ [0x0062])
     = concat (replicate n [0x000A, 0x000A, 0x0020]) @ [0x0062]"
  by (induction n) simp_all

lemma trim_id: "s \<noteq> [] \<Longrightarrow> \<not> isWhitespace (hd s) \<Longrightarrow> \<not> isWhitespace (last s) \<Longrightarrow> trim s = s"
proof -
  assume a: "s \<noteq> []" "\<not> isWhitespace (hd s)" "\<not> isWhitespace (last s)"
  have 1: "dropWhile isWhitespace s = s" using a by (simp add: dropWhile_eq_self_iff)
  have 2: "dropWhile isWhitespace (rev s) = rev s" using a by (simp add: dropWhile_eq_self_iff hd_rev)
  show ?thesis by (simp add: trim_def 1 2)
qed

lemma gap_normalized: "normalizeText exampleGapText = exampleGapText"
proof -
  have m: "map (\<lambda>c. if c = 0x000D then 0x000A else c) exampleGapText = exampleGapText"
    by (rule map_idI) (auto simp: exampleGapText_def)
  have r1: "replaceRuns 1 (\<lambda>c. c \<in> {0x0009, 0x000C, 0x000B}) [0x0020] exampleGapText = exampleGapText"
    by (rule replaceRuns_id) (auto simp: exampleGapText_def)
  have f: "filter (\<lambda>c. c \<noteq> 0x0000) exampleGapText = exampleGapText"
    unfolding filter_id_conv by (auto simp: exampleGapText_def)
  have r2: "replaceRuns 2 (\<lambda>c. c = 0x0020) [0x0020] exampleGapText = exampleGapText"
    unfolding exampleGapText_def by (simp add: gap_spaces)
  have r3: "replaceRuns 3 (\<lambda>c. c = 0x000A) [0x000A, 0x000A] exampleGapText = exampleGapText"
    unfolding exampleGapText_def by (simp add: gap_lines)
  have t: "trim exampleGapText = exampleGapText"
    by (rule trim_id) (simp_all add: exampleGapText_def isWhitespace_def)
  show ?thesis unfolding normalizeText_def m r1 f r2 r3 t ..
qed

text \<open>
  The claim as stated fails: in the normalized example text the window that starts at
  1340 is blank and is skipped, so the two chunks \<open>[0, 1600)\<close> and \<open>[2680, 3002)\<close>
  that follow each other in the result do not overlap.
\<close>

theorem chunkText_overlap_counterexample:
  "exampleGapText = normalizeText exampleGapText \<and> exampleGapText \<noteq> [] \<and>
   map (\<lambda>c. (chunk_start c, chunk_end c)) (chunkText exampleGapText) = [(0, 1600), (2680, 3002)] \<and>
   chunk_start (chunkText exampleGapText ! 1) + CHUNK_OVERLAP \<noteq> chunk_end (chunkText exampleGapText ! 0) \<and>
   chunk_end (chunkText exampleGapText ! 0) < chunk_start (chunkText exampleGapText ! 1)"
proof -
  have len: "length (chunkText exampleGapText) = 2"
    using arg_cong[OF gap_chunks, of length] by simp
  have se: "chunk_start (chunkText exampleGapText ! 1) = 2680" "chunk_end (chunkText exampleGapText ! 0) = 1600"
    using arg_cong[OF gap_chunks, of "\<lambda>l. l ! 1"] arg_cong[OF gap_chunks, of "\<lambda>l. l ! 0"] len
    by (simp_all add: nth_map)
  have ne: "exampleGapText \<noteq> []" by (simp add: exampleGapText_def)
  show ?thesis
    using gap_normalized gap_chunks ne unfolding se by (simp add: CHUNK_OVERLAP_def)
qed

text \<open>
  The theorem at a text of 1601 letters \<open>a\<close>: two chunks, \<open>[0, 1600)\<close> and
  \<open>[1340, 1601)\<close>, overlapping by 260 characters.
\<close>

theorem chunkText_normalized_witness:
  "normalizeText (replicate 1601 0x61) \<noteq> [] \<and>
   length (chunkText (normalizeText (replicate 1601 0x61))) = 2 \<and>
   chunk_id (chunkText (normalizeText (replicate 1601 0x61)) ! 1) = ascii ''chunk-2'' \<and>
   chunk_start (chunkText (normalizeText (replicate 1601 0x61)) ! 1) + CHUNK_OVERLAP
     = chunk_end (chunkText (normalizeText (replicate 1601 0x61)) ! 0) \<and>
   chunk_end (last (chunkText (normalizeText (replicate 1601 0x61)))) = 1601"
proof -
  let ?t = "replicate 1601 (0x61 :: code_unit)"
  have n: "?t = normalizeText ?t" by (simp add: normalizeText_replicate_a)
  have ne: "?t \<noteq> []" by simp
  have len: "length (chunkText ?t) = 2"
    using arg_cong[OF chunkText_replicate_a, of length] by simp
  have se: "chunk_start (chunkText ?t ! 1) = 1340" "chunk_end (chunkText ?t ! 0) = 1600"
    using arg_cong[OF chunkText_replicate_a, of "\<lambda>l. l ! 1"] arg_cong[OF chunkText_replicate_a, of "\<lambda>l. l ! 0"] len
    by (simp_all add: nth_map)
  have d: "decimal (1 + 1) = ''2''" by code_simp
  from chunkText_normalized[OF n] ne
  have ids: "\<forall>i<length (chunkText ?t). chunk_id (chunkText ?t ! i) = ascii ''chunk-'' @ ascii (decimal (i + 1))"
    and lst: "chunk_end (last (chunkText ?t)) = length ?t"
    by blast+
  have "(1::nat) < length (chunkText ?t)" using len by simp
  with ids have "chunk_id (chunkText ?t ! 1) = ascii ''chunk-'' @ ascii (decimal (1 + 1))"
    by blast
  then have id1: "chunk_id (chunkText ?t ! 1) = ascii ''chunk-2''"
    unfolding d by (simp add: ascii_def)
  show ?thesis
    unfolding normalizeText_replicate_a using ne len id1 se lst
    by (simp add: CHUNK_OVERLAP_def)
qed

section \<open>Proofs: section page ranges\<close>

lemma scanNext_find:
  "scanNext ns d e =
     (case find (endsSection d) ns of Some nx \<Rightarrow> the (fo_pageNumber nx) - 1 | None \<Rightarrow> e)"
  by (induction ns) (auto simp: endsSection_def split: option.splits)

text \<open>
  Claim C2.  For a node \<open>i\<close> of a flattened outline with page number \<open>p > 0\<close>,
  \<open>resolveSectionPageRange\<close> returns the range from \<open>p\<close> to \<open>q - 1\<close>, where
  \<open>q\<close> is the page number of the first later node at depth at most the node's depth
  with a positive page number, and to the document's last page when there is no such
  node; the end is clamped so that it is never below the start.  A node without a page
  number gets the undefined range.  For three top-level bookmarks at pages 1, 5 and 12 of
  a document of at least 12 pages the ranges are \<open>[1, 4]\<close>, \<open>[5, 11]\<close> and
  \<open>[12, lastPage]\<close>.
\<close>

theorem resolveSectionPageRange_spec:
  "(i < length flattened \<and> fo_pageNumber (flattened ! i) = Some p \<and> 0 < p \<longrightarrow>
      (\<exists>e. resolveSectionPageRange flattened i numPages
               = Inr \<lparr>startPageNumber = Some p, endPageNumber = Some e\<rparr> \<and>
           p \<le> e \<and>
           e = (case find (endsSection (fo_depth (flattened ! i))) (drop (Suc i) flattened) of
                  Some nx \<Rightarrow> max p (the (fo_pageNumber nx) - 1)
                | None \<Rightarrow> max p (if 0 < numPages then numPages else p)))) \<and>
   (i < length flattened \<and> fo_pageNumber (flattened ! i) = None \<longrightarrow>
      resolveSectionPageRange flattened i numPages
        = Inr \<lparr>startPageNumber = None, endPageNumber = None\<rparr>) \<and>
   (12 \<le> lastPage \<longrightarrow>
      map (\<lambda>k. resolveSectionPageRange
                   (flattenOutlineWithPath [bookmarkAt t1 1, bookmarkAt t2 5, bookmarkAt t3 12])
                   k lastPage) [0, 1, 2]
        = [Inr \<lparr>startPageNumber = Some 1, endPageNumber = Some 4\<rparr>,
           Inr \<lparr>startPageNumber = Some 5, endPageNumber = Some 11\<rparr>,
           Inr \<lparr>startPageNumber = Some 12, endPageNumber = Some lastPage\<rparr>])"
proof (intro conjI impI)
  assume h: "i < length flattened \<and> fo_pageNumber (flattened ! i) = Some p \<and> 0 < p"
  then show "\<exists>e. resolveSectionPageRange flattened i numPages
               = Inr \<lparr>startPageNumber = Some p, endPageNumber = Some e\<rparr> \<and>
           p \<le> e \<and>
           e = (case find (endsSection (fo_depth (flattened ! i))) (drop (Suc i) flattened) of
                  Some nx \<Rightarrow> max p (the (fo_pageNumber nx) - 1)
                | None \<Rightarrow> max p (if 0 < numPages then numPages else p))"
    by (auto simp: resolveSectionPageRange_def Let_def scanNext_find split: option.splits)
next
  assume "i < length flattened \<and> fo_pageNumber (flattened ! i) = None"
  then show "resolveSectionPageRange flattened i numPages
        = Inr \<lparr>startPageNumber = None, endPageNumber = None\<rparr>"
    by (simp add: resolveSectionPageRange_def)
next
  assume "12 \<le> lastPage"
  then show "map (\<lambda>k. resolveSectionPageRange
                   (flattenOutlineWithPath [bookmarkAt t1 1, bookmarkAt t2 5, bookmarkAt t3 12])
                   k lastPage) [0, 1, 2]
        = [Inr \<lparr>startPageNumber = Some 1, endPageNumber = Some 4\<rparr>,
           Inr \<lparr>startPageNumber = Some 5, endPageNumber = Some 11\<rparr>,
           Inr \<lparr>startPageNumber = Some 12, endPageNumber = Some lastPage\<rparr>]"
    by (simp add: flattenOutlineWithPath_def bookmarkAt_def resolveSectionPageRange_def Let_def)
qed

text \<open>
  The theorem on the outline \<open>A (p.1) [A1 (p.2), A2 (no page)], B (p.5)\<close> of a
  9-page document: the section \<open>A1\<close> skips the unresolved \<open>A2\<close> and ends before
  \<open>B\<close>; \<open>A2\<close> has no range.
\<close>

theorem resolveSectionPageRange_spec_witness:
  "1 < length (flattenOutlineWithPath
        [PdfOutlineNode (ascii ''A'') (Some 1) None
           [PdfOutlineNode (ascii ''A1'') (Some 2) None [] 1,
            PdfOutlineNode (ascii ''A2'') None None [] 1] 0,
         bookmarkAt (ascii ''B'') 5]) \<and>
   resolveSectionPageRange (flattenOutlineWithPath
        [PdfOutlineNode (ascii ''A'') (Some 1) None
           [PdfOutlineNode (ascii ''A1'') (Some 2) None [] 1,
            PdfOutlineNode (ascii ''A2'') None None [] 1] 0,
         bookmarkAt (ascii ''B'') 5]) 1 9
     = Inr \<lparr>startPageNumber = Some 2, endPageNumber = Some 4\<rparr> \<and>
   resolveSectionPageRange (flattenOutlineWithPath
        [PdfOutlineNode (ascii ''A'') (Some 1) None
           [PdfOutlineNode (ascii ''A1'') (Some 2) None [] 1,
            PdfOutlineNode (ascii ''A2'') None None [] 1] 0,
         bookmarkAt (ascii ''B'') 5]) 2 9
     = Inr \<lparr>startPageNumber = None, endPageNumber = None\<rparr> \<and>
   (12::int) \<le> 20 \<and>
   map (\<lambda>k. resolveSectionPageRange
               (flattenOutlineWithPath
                  [bookmarkAt (ascii ''a'') 1, bookmarkAt (ascii ''b'') 5, bookmarkAt (ascii ''c'') 12])
               k 20) [0, 1, 2]
     = [Inr \<lparr>startPageNumber = Some 1, endPageNumber = Some 4\<rparr>,
        Inr \<lparr>startPageNumber = Some 5, endPageNumber = Some 11\<rparr>,
        Inr \<lparr>startPageNumber = Some 12, endPageNumber = Some 20\<rparr>]"
proof -
  define fl where "fl = flattenOutlineWithPath
        [PdfOutlineNode (ascii ''A'') (Some 1) None
           [PdfOutlineNode (ascii ''A1'') (Some 2) None [] 1,
            PdfOutlineNode (ascii ''A2'') None None [] 1] 0,
         bookmarkAt (ascii ''B'') 5]"
  have len: "length fl = 4"
    by (simp add: fl_def flattenOutlineWithPath_def bookmarkAt_def Let_def)
  have p1: "fo_pageNumber (fl ! 1) = Some 2" and d1: "fo_depth (fl ! 1) = 1"
    and p2: "fo_pageNumber (fl ! 2) = None"
    by (simp_all add: fl_def flattenOutlineWithPath_def bookmarkAt_def Let_def)
  have nxt: "find (endsSection 1) (drop (Suc 1) fl) = Some (fl ! 3)"
    and p3: "fo_pageNumber (fl ! 3) = Some 5"
    by (simp_all add: fl_def flattenOutlineWithPath_def bookmarkAt_def endsSection_def Let_def)
  have a: "resolveSectionPageRange fl 1 9
             = Inr \<lparr>startPageNumber = Some 2, endPageNumber = Some 4\<rparr>"
    using resolveSectionPageRange_spec[of 1 fl 2 9] len p1 d1 nxt p3 by auto
  have b: "resolveSectionPageRange fl 2 9 = Inr \<lparr>startPageNumber = None, endPageNumber = None\<rparr>"
    using resolveSectionPageRange_spec[of 2 fl _ 9] len p2 by auto
  have c: "map (\<lambda>k. resolveSectionPageRange
               (flattenOutlineWithPath
                  [bookmarkAt (ascii ''a'') 1, bookmarkAt (ascii ''b'') 5, bookmarkAt (ascii ''c'') 12])
               k 20) [0, 1, 2]
     = [Inr \<lparr>startPageNumber = Some 1, endPageNumber = Some 4\<rparr>,
        Inr \<lparr>startPageNumber = Some 5, endPageNumber = Some 11\<rparr>,
        Inr \<lparr>startPageNumber = Some 12, endPageNumber = Some 20\<rparr>]"
    using resolveSectionPageRange_spec[of _ _ _ _ 20 "ascii ''a''" "ascii ''b''" "ascii ''c''"] by simp
  show ?thesis using a b c len unfolding fl_def by simp
qed

section \<open>Proofs: cosine similarity\<close>

lemma floor_log2_bounds:
  assumes "0 < (x::real)"
  shows "2 powi \<lfloor>log 2 x\<rfloor> \<le> x" "x < 2 powi (\<lfloor>log 2 x\<rfloor> + 1)"
proof -
  have a: "2 powr real_of_int k = (2::real) powi k" for k
    by (rule powr_real_of_int') simp_all
  have "2 powr real_of_int \<lfloor>log 2 x\<rfloor> \<le> x \<and> x < 2 powr real_of_int (\<lfloor>log 2 x\<rfloor> + 1)"
    using floor_log_eq_powr_iff[of x 2 "\<lfloor>log 2 x\<rfloor>"] assms by simp
  then show "2 powi \<lfloor>log 2 x\<rfloor> \<le> x" "x < 2 powi (\<lfloor>log 2 x\<rfloor> + 1)"
    unfolding a by blast+
qed

lemma roundHalfEven_ge: "of_int n \<le> y \<Longrightarrow> n \<le> roundHalfEven y"
proof -
  assume "of_int n \<le> y"
  then have "n \<le> \<lfloor>y\<rfloor>" by (simp add: le_floor_iff)
  then show ?thesis by (simp add: roundHalfEven_def Let_def)
qed

lemma ulpExponent_ge: "- 1074 \<le> ulpExponent x"
  by (simp add: ulpExponent_def)

lemma MIN_VALUE_pos: "0 < MIN_VALUE"
  by (simp add: MIN_VALUE_def)

lemma ulp_ge_min: "MIN_VALUE \<le> 2 powi ulpExponent x"
  unfolding MIN_VALUE_def by (rule power_int_increasing) (simp_all add: ulpExponent_ge)

lemma ulp_le_self:
  assumes "MIN_VALUE \<le> (x::real)"
  shows "2 powi ulpExponent x \<le> x"
proof -
  have pos: "0 < x" using assms MIN_VALUE_pos by linarith
  have ax: "\<bar>x\<bar> = x" using pos by simp
  show ?thesis
  proof (cases "- 1022 \<le> \<lfloor>log 2 x\<rfloor>")
    case True
    then have "ulpExponent x = \<lfloor>log 2 x\<rfloor> - 52" by (simp add: ulpExponent_def ax)
    then have "(2::real) powi ulpExponent x \<le> 2 powi \<lfloor>log 2 x\<rfloor>"
      by (simp add: power_int_increasing)
    then show ?thesis using floor_log2_bounds(1)[OF pos] by linarith
  next
    case False
    then have "ulpExponent x = - 1074" by (simp add: ulpExponent_def ax)
    then show ?thesis using assms unfolding MIN_VALUE_def by (simp only:)
  qed
qed

lemma round64_positive:
  assumes "MIN_VALUE \<le> (x::real)"
  shows "round64 x = PosInfinity \<or> (\<exists>r. round64 x = Finite r \<and> MIN_VALUE \<le> r)"
proof -
  have pos: "0 < x" using assms MIN_VALUE_pos by linarith
  define q :: real where "q = 2 powi ulpExponent x"
  define k where "k = roundHalfEven (x / q)"
  have q: "0 < q" "MIN_VALUE \<le> q" "q \<le> x"
    using ulp_ge_min[of x] ulp_le_self[OF assms] by (simp_all add: q_def)
  have "of_int 1 \<le> x / q" using q by simp
  then have k: "1 \<le> k" unfolding k_def by (rule roundHalfEven_ge)
  then have "q * 1 \<le> q * of_int k" using q(1) by (intro mult_left_mono) simp_all
  then have r: "MIN_VALUE \<le> of_int k * q" using q(2) by (simp add: mult.commute)
  have "round64 x = (if 2 ^ 1024 \<le> \<bar>of_int k * q\<bar> then PosInfinity else Finite (of_int k * q))"
    using pos by (simp add: round64_def Let_def q_def k_def)
  then show ?thesis using r by auto
qed

lemma round64_lower:
  assumes "2 powi j \<le> (x::real)" and j: "- 1022 \<le> j"
  shows "round64 x = PosInfinity \<or> (\<exists>r. round64 x = Finite r \<and> 2 powi j \<le> r)"
proof -
  have pos: "0 < x" using assms zero_less_power_int[of "2::real" j] by linarith
  have ax: "\<bar>x\<bar> = x" using pos by simp
  define e where "e = \<lfloor>log 2 x\<rfloor>"
  have "x < 2 powi (e + 1)" unfolding e_def using pos by (rule floor_log2_bounds(2))
  then have "(2::real) powi j < 2 powi (e + 1)" using assms(1) by linarith
  then have "j < e + 1"
    by (metis power_int_increasing not_le one_le_numeral)
  then have je: "j \<le> e" by simp
  then have ue: "ulpExponent x = e - 52" using j by (simp add: ulpExponent_def ax e_def)
  define q :: real where "q = 2 powi (e - 52)"
  define k where "k = roundHalfEven (x / q)"
  have q: "0 < q" by (simp add: q_def)
  have qe: "2 ^ 52 * q = 2 powi e"
    using power_int_add[of "2::real" 52 "e - 52"] by (simp add: q_def)
  have "2 powi e \<le> x" unfolding e_def using pos by (rule floor_log2_bounds(1))
  then have "2 ^ 52 * q \<le> x" using qe by simp
  then have "of_int (2 ^ 52) \<le> x / q" using q by (simp add: pos_le_divide_eq)
  then have k: "2 ^ 52 \<le> k" unfolding k_def by (rule roundHalfEven_ge)
  then have "(2::real) ^ 52 \<le> of_int k" by (metis of_int_le_iff of_int_numeral of_int_power)
  then have "2 ^ 52 * q \<le> of_int k * q" using q by (intro mult_right_mono) simp_all
  then have "2 powi e \<le> of_int k * q" using qe by simp
  moreover have "(2::real) powi j \<le> 2 powi e" using je by (simp add: power_int_increasing)
  ultimately have r: "2 powi j \<le> of_int k * q" by linarith
  have "round64 x = (if 2 ^ 1024 \<le> \<bar>of_int k * q\<bar> then PosInfinity else Finite (of_int k * q))"
    using pos by (simp add: round64_def Let_def q_def k_def ue)
  then show ?thesis using r by auto
qed

lemma round64_grid:
  assumes "round64 x = Finite r"
  shows "r = 0 \<or> MIN_VALUE \<le> \<bar>r\<bar>"
proof (cases "x = 0")
  case True
  then show ?thesis using assms by (simp add: round64_def)
next
  case False
  define q :: real where "q = 2 powi ulpExponent x"
  define k where "k = roundHalfEven (x / q)"
  have q: "0 < q" "MIN_VALUE \<le> q"
    using ulp_ge_min[of x] by (simp_all add: q_def)
  have r: "r = of_int k * q"
    using assms False by (simp add: round64_def Let_def q_def k_def split: if_splits)
  show ?thesis
  proof (cases "k = 0")
    case True
    then show ?thesis using r by simp
  next
    case False
    then have "1 \<le> \<bar>k\<bar>" by simp
    then have "(1::real) \<le> \<bar>of_int k\<bar>" by (metis of_int_1_le_iff of_int_abs)
    then have "1 * q \<le> \<bar>of_int k\<bar> * q" using q(1) by (intro mult_right_mono) simp_all
    then have "q \<le> \<bar>r\<bar>" using q(1) by (simp add: r abs_mult)
    then show ?thesis using q(2) by linarith
  qed
qed

lemma round64_bound: "round64 x = Finite r \<Longrightarrow> \<bar>r\<bar> < 2 ^ 1024"
  by (simp add: round64_def Let_def split: if_splits)

lemma round64_overflow:
  assumes "2 ^ 1024 \<le> (x::real)"
  shows "round64 x = PosInfinity"
proof -
  have "(2::real) powi 1024 \<le> x" using assms by (simp only: power_int_numeral)
  then have "round64 x = PosInfinity \<or> (\<exists>r. round64 x = Finite r \<and> 2 powi 1024 \<le> r)"
    by (rule round64_lower) simp
  moreover have "\<not> (2::real) powi 1024 \<le> r" if "round64 x = Finite r" for r
  proof -
    have "\<bar>r\<bar> < 2 powi 1024" using round64_bound[OF that] by (simp only: power_int_numeral)
    then show ?thesis by linarith
  qed
  ultimately show ?thesis by blast
qed

lemma round64_underflow:
  assumes "0 < (x::real)" "x < MIN_VALUE / 2"
  shows "round64 x = Finite 0"
proof -
  have ax: "\<bar>x\<bar> = x" using assms by simp
  have "x < 2 powi (- 1022)"
  proof -
    have "MIN_VALUE \<le> 2 powi (- 1022)"
      unfolding MIN_VALUE_def by (rule power_int_increasing) simp_all
    then show ?thesis using assms MIN_VALUE_pos by linarith
  qed
  then have "\<not> 2 powi (- 1022) \<le> x" by simp
  then have "\<not> - 1022 \<le> \<lfloor>log 2 x\<rfloor>"
    using floor_log2_bounds(1)[OF assms(1)] power_int_increasing[of "- 1022" "\<lfloor>log 2 x\<rfloor>" "2::real"]
    by fastforce
  then have ue: "ulpExponent x = - 1074" by (simp add: ulpExponent_def ax)
  have q: "2 powi ulpExponent x = MIN_VALUE" by (simp only: ue MIN_VALUE_def)
  have f0: "0 \<le> x / MIN_VALUE" using assms MIN_VALUE_pos by simp
  have "x < (1 / 2) * MIN_VALUE" using assms(2) by simp
  then have f1: "x / MIN_VALUE < 1 / 2" using MIN_VALUE_pos by (simp only: pos_divide_less_eq)
  note f = f0 f1
  have f2: "x / MIN_VALUE < 1" using f1 by linarith
  have fl: "\<lfloor>x / MIN_VALUE\<rfloor> = 0" unfolding floor_eq_iff using f0 f2 by simp
  have "roundHalfEven (x / MIN_VALUE) = 0"
    unfolding roundHalfEven_def Let_def fl using f1 by simp
  then show ?thesis using assms(1) unfolding round64_def q Let_def by simp
qed

lemma cosineLoop_foldl:
  "i \<le> n \<Longrightarrow> n \<le> length vecA \<Longrightarrow> n \<le> length vecB \<Longrightarrow>
   cosineLoop vecA vecB n i acc = foldl cosineStep acc (drop i (take n (zip vecA vecB)))"
proof (induction "n - i" arbitrary: i acc)
  case 0
  then have "i = n" by simp
  then show ?case by (cases acc) (simp add: cosineLoop.simps)
next
  case (Suc m)
  then have lt: "i < n" and m: "m = n - Suc i" and le: "Suc i \<le> n" by auto
  obtain dot normA normB where acc: "acc = (dot, normA, normB)" by (cases acc)
  have len: "i < length (take n (zip vecA vecB))" using lt Suc.prems by simp
  have nth: "take n (zip vecA vecB) ! i = (vecA ! i, vecB ! i)"
    using lt Suc.prems by simp
  have dr: "drop i (take n (zip vecA vecB)) = (vecA ! i, vecB ! i) # drop (Suc i) (take n (zip vecA vecB))"
    using Cons_nth_drop_Suc[OF len] nth by simp
  have "cosineLoop vecA vecB n i acc =
        cosineLoop vecA vecB n (Suc i) (cosineStep acc (vecA ! i, vecB ! i))"
    using lt unfolding acc by (subst cosineLoop.simps) (simp add: Let_def cosineStep_def)
  also have "\<dots> = foldl cosineStep (cosineStep acc (vecA ! i, vecB ! i))
                      (drop (Suc i) (take n (zip vecA vecB)))"
    using Suc.prems by (intro Suc.hyps(1)[OF m le]) simp_all
  finally show ?case unfolding dr by simp
qed

lemma cosineSimilarity_unfold:
  "cosineSimilarity vecA vecB =
     (if vecA = [] \<or> vecB = [] then Finite 0
      else
        (case foldl cosineStep (Finite 0, Finite 0, Finite 0) (zip vecA vecB) of
           (dot, normA, normB) \<Rightarrow>
             if jsLessEqZero normA \<or> jsLessEqZero normB then Finite 0
             else jsDivide dot (jsMultiply (jsSqrt normA) (jsSqrt normB))))"
proof -
  define n where "n = min (length vecA) (length vecB)"
  have "cosineLoop vecA vecB n 0 (Finite 0, Finite 0, Finite 0)
        = foldl cosineStep (Finite 0, Finite 0, Finite 0) (drop 0 (take n (zip vecA vecB)))"
    by (rule cosineLoop_foldl) (simp_all add: n_def)
  then have loop: "cosineLoop vecA vecB n 0 (Finite 0, Finite 0, Finite 0)
        = foldl cosineStep (Finite 0, Finite 0, Finite 0) (zip vecA vecB)"
    by (simp add: n_def)
  have e: "n \<le> 0 \<longleftrightarrow> vecA = [] \<or> vecB = []" by (auto simp: n_def min_def)
  show ?thesis
    unfolding cosineSimilarity_def Let_def n_def[symmetric] loop e ..
qed

lemma round64_zero: "round64 0 = Finite 0"
  by (simp add: round64_def)

lemma foldl_zero_normA:
  "\<forall>p\<in>set zs. fst p = Finite 0 \<Longrightarrow>
   fst (snd (foldl cosineStep (dot, Finite 0, normB) zs)) = Finite 0"
  by (induction zs arbitrary: dot normB) (auto simp: cosineStep_def round64_zero)

lemma foldl_zero_normB:
  "\<forall>p\<in>set zs. snd p = Finite 0 \<Longrightarrow>
   snd (snd (foldl cosineStep (dot, normA, Finite 0) zs)) = Finite 0"
  by (induction zs arbitrary: dot normA) (auto simp: cosineStep_def round64_zero)

lemma foldl_last_step:
  "zs \<noteq> [] \<Longrightarrow> \<exists>d u v w x. foldl cosineStep acc zs = (d, jsAdd u v, jsAdd w x)"
proof (cases zs rule: rev_cases)
  case Nil
  assume "zs \<noteq> []"
  with Nil show ?thesis by simp
next
  case (snoc ys p)
  obtain d na nb where a: "foldl cosineStep acc ys = (d, na, nb)" by (cases "foldl cosineStep acc ys")
  obtain a b where p: "p = (a, b)" by (cases p)
  have "cosineStep (d, na, nb) (a, b) =
      (jsAdd d (jsMultiply a b), jsAdd na (jsMultiply a a), jsAdd nb (jsMultiply b b))"
    by (simp add: cosineStep_def)
  then show ?thesis unfolding snoc by (simp add: a p) blast
qed

lemma jsAdd_positive:
  assumes "\<not> jsLessEqZero (jsAdd u v)"
  shows "positiveNumber MIN_VALUE (jsAdd u v)"
proof (cases "jsAdd u v")
  case (Finite r)
  then obtain a b where ab: "u = Finite a" "v = Finite b"
    by (cases u; cases v) auto
  have "round64 (a + b) = Finite r" using Finite ab by simp
  then have "r = 0 \<or> MIN_VALUE \<le> \<bar>r\<bar>" by (rule round64_grid)
  moreover have "0 < r" using assms Finite by simp
  ultimately show ?thesis by (simp add: positiveNumber_def Finite)
next
  case NegInfinity
  then show ?thesis using assms by simp
qed (simp_all add: positiveNumber_def)

lemma sqrt_MIN_VALUE: "sqrt MIN_VALUE = 2 powi (- 537)"
proof -
  have "(2::real) powi (- 537 + - 537) = 2 powi (- 537) * 2 powi (- 537)"
    by (rule power_int_add) simp
  then have m: "MIN_VALUE = (2 powi (- 537))\<^sup>2"
    unfolding MIN_VALUE_def power2_eq_square by simp
  have "(0::real) \<le> 2 powi (- 537)" by (rule less_imp_le, rule zero_less_power_int) simp
  then have "\<bar>(2::real) powi (- 537)\<bar> = 2 powi (- 537)" by (rule abs_of_nonneg)
  then show ?thesis unfolding m real_sqrt_abs .
qed

lemma jsSqrt_positive:
  assumes "positiveNumber MIN_VALUE x"
  shows "positiveNumber (2 powi (- 537)) (jsSqrt x)"
proof (cases x)
  case (Finite r)
  then have r: "MIN_VALUE \<le> r" using assms by (simp add: positiveNumber_def)
  then have "sqrt MIN_VALUE \<le> sqrt r" by simp
  then have "2 powi (- 537) \<le> sqrt r" unfolding sqrt_MIN_VALUE .
  then have "round64 (sqrt r) = PosInfinity \<or> (\<exists>s. round64 (sqrt r) = Finite s \<and> 2 powi (- 537) \<le> s)"
    by (rule round64_lower) simp
  moreover have "\<not> r < 0" using r MIN_VALUE_pos by linarith
  ultimately show ?thesis unfolding Finite positiveNumber_def by auto
next
  case NegInfinity
  then show ?thesis using assms by (simp add: positiveNumber_def)
qed (simp_all add: positiveNumber_def)

lemma jsMultiply_positive:
  assumes "positiveNumber (2 powi (- 537)) x" "positiveNumber (2 powi (- 537)) y"
  shows "jsMultiply x y \<noteq> Finite 0"
proof -
  have h: "(0::real) < 2 powi (- 537)" by (rule zero_less_power_int) simp
  have both: "jsMultiply (Finite a) (Finite b) \<noteq> Finite 0"
    if "2 powi (- 537) \<le> a" "2 powi (- 537) \<le> b" for a b :: real
  proof -
    have "(2::real) powi (- 537 + - 537) = 2 powi (- 537) * 2 powi (- 537)"
      by (rule power_int_add) simp
    then have m: "MIN_VALUE = 2 powi (- 537) * 2 powi (- 537)"
      unfolding MIN_VALUE_def by simp
    have "2 powi (- 537) * 2 powi (- 537) \<le> a * b"
      using that h by (intro mult_mono) linarith+
    then have "MIN_VALUE \<le> a * b" unfolding m .
    then have "round64 (a * b) = PosInfinity \<or> (\<exists>r. round64 (a * b) = Finite r \<and> MIN_VALUE \<le> r)"
      by (rule round64_positive)
    then show ?thesis using MIN_VALUE_pos by auto
  qed
  show ?thesis
    using assms both h unfolding positiveNumber_def
    by (cases x; cases y) (auto simp del: jsMultiply.simps(1) split: if_splits)
qed

lemma cosine_divisor_nonzero:
  assumes "zs \<noteq> []" "foldl cosineStep acc zs = (dot, normA, normB)"
    "\<not> jsLessEqZero normA" "\<not> jsLessEqZero normB"
  shows "jsMultiply (jsSqrt normA) (jsSqrt normB) \<noteq> Finite 0"
proof -
  obtain d u v w x where "foldl cosineStep acc zs = (d, jsAdd u v, jsAdd w x)"
    using foldl_last_step[OF assms(1)] by blast
  then have n: "normA = jsAdd u v" "normB = jsAdd w x" using assms(2) by simp_all
  have "positiveNumber MIN_VALUE normA" "positiveNumber MIN_VALUE normB"
    using assms(3,4) unfolding n by (simp_all add: jsAdd_positive)
  then have "positiveNumber (2 powi (- 537)) (jsSqrt normA)" "positiveNumber (2 powi (- 537)) (jsSqrt normB)"
    by (simp_all only: jsSqrt_positive)
  then show ?thesis by (rule jsMultiply_positive)
qed

text \<open>
  Claim C10.  \<open>cosineSimilarity\<close> is a total function of two lists of binary64 numbers.
  It returns exactly 0 when either vector is empty, and when the first
  \<open>min (length vecA) (length vecB)\<close> components of either vector are all zero, which
  is when the squared norm of the truncated vector is zero.  For non-empty vectors the
  three sums are accumulated over the pairs of components at the same position, which
  are the first \<open>min (length vecA) (length vecB)\<close> components of each vector: the
  result is 0 when a computed squared norm is not above zero, and otherwise the computed
  dot product divided by the product of the square roots of the computed squared norms,
  a product that is never zero.  Components beyond the shorter length do not matter.
\<close>

theorem cosineSimilarity_guarded:
  "(vecA = [] \<or> vecB = [] \<longrightarrow> cosineSimilarity vecA vecB = Finite 0) \<and>
   ((\<forall>k<min (length vecA) (length vecB). vecA ! k = Finite 0) \<or>
    (\<forall>k<min (length vecA) (length vecB). vecB ! k = Finite 0) \<longrightarrow>
      cosineSimilarity vecA vecB = Finite 0) \<and>
   (\<forall>dot normA normB.
      vecA \<noteq> [] \<and> vecB \<noteq> [] \<and>
      foldl cosineStep (Finite 0, Finite 0, Finite 0) (zip vecA vecB) = (dot, normA, normB) \<longrightarrow>
        (jsLessEqZero normA \<or> jsLessEqZero normB \<longrightarrow> cosineSimilarity vecA vecB = Finite 0) \<and>
        (\<not> jsLessEqZero normA \<and> \<not> jsLessEqZero normB \<longrightarrow>
           cosineSimilarity vecA vecB = jsDivide dot (jsMultiply (jsSqrt normA) (jsSqrt normB)) \<and>
           jsMultiply (jsSqrt normA) (jsSqrt normB) \<noteq> Finite 0)) \<and>
   cosineSimilarity vecA vecB =
     cosineSimilarity (take (min (length vecA) (length vecB)) vecA)
                      (take (min (length vecA) (length vecB)) vecB)"
proof (intro conjI allI impI)
  assume "vecA = [] \<or> vecB = []"
  then show "cosineSimilarity vecA vecB = Finite 0" by (simp add: cosineSimilarity_unfold)
next
  assume z: "(\<forall>k<min (length vecA) (length vecB). vecA ! k = Finite 0) \<or>
             (\<forall>k<min (length vecA) (length vecB). vecB ! k = Finite 0)"
  obtain dot normA normB
    where f: "foldl cosineStep (Finite 0, Finite 0, Finite 0) (zip vecA vecB) = (dot, normA, normB)"
    by (cases "foldl cosineStep (Finite 0, Finite 0, Finite 0) (zip vecA vecB)")
  have "normA = Finite 0 \<or> normB = Finite 0"
  proof (rule disjE[OF z])
    assume a: "\<forall>k<min (length vecA) (length vecB). vecA ! k = Finite 0"
    have "\<forall>p\<in>set (zip vecA vecB). fst p = Finite 0"
      using a by (auto simp: in_set_zip)
    from foldl_zero_normA[OF this, of "Finite 0" "Finite 0"] show ?thesis by (simp add: f)
  next
    assume b: "\<forall>k<min (length vecA) (length vecB). vecB ! k = Finite 0"
    have "\<forall>p\<in>set (zip vecA vecB). snd p = Finite 0"
      using b by (auto simp: in_set_zip)
    from foldl_zero_normB[OF this, of "Finite 0" "Finite 0"] show ?thesis by (simp add: f)
  qed
  then have "jsLessEqZero normA \<or> jsLessEqZero normB" by auto
  then show "cosineSimilarity vecA vecB = Finite 0"
    by (simp add: cosineSimilarity_unfold f)
next
  fix dot normA normB
  assume h: "vecA \<noteq> [] \<and> vecB \<noteq> [] \<and>
      foldl cosineStep (Finite 0, Finite 0, Finite 0) (zip vecA vecB) = (dot, normA, normB)"
  assume "jsLessEqZero normA \<or> jsLessEqZero normB"
  then show "cosineSimilarity vecA vecB = Finite 0"
    using h by (simp add: cosineSimilarity_unfold)
next
  fix dot normA normB
  assume h: "vecA \<noteq> [] \<and> vecB \<noteq> [] \<and>
      foldl cosineStep (Finite 0, Finite 0, Finite 0) (zip vecA vecB) = (dot, normA, normB)"
  assume g: "\<not> jsLessEqZero normA \<and> \<not> jsLessEqZero normB"
  show "cosineSimilarity vecA vecB = jsDivide dot (jsMultiply (jsSqrt normA) (jsSqrt normB))"
    using h g by (simp add: cosineSimilarity_unfold)
  have ne: "zip vecA vecB \<noteq> []" using h by (cases vecA; cases vecB) simp_all
  have hf: "foldl cosineStep (Finite 0, Finite 0, Finite 0) (zip vecA vecB) = (dot, normA, normB)"
    using h by simp
  show "jsMultiply (jsSqrt normA) (jsSqrt normB) \<noteq> Finite 0"
    using ne hf g[THEN conjunct1] g[THEN conjunct2] by (rule cosine_divisor_nonzero)
next
  define n where "n = min (length vecA) (length vecB)"
  have z: "zip (take n vecA) (take n vecB) = zip vecA vecB"
    unfolding take_zip[symmetric] by (simp add: n_def)
  have e: "take n vecA = [] \<or> take n vecB = [] \<longleftrightarrow> vecA = [] \<or> vecB = []"
    by (auto simp: n_def min_def)
  show "cosineSimilarity vecA vecB = cosineSimilarity (take n vecA) (take n vecB)"
    unfolding cosineSimilarity_unfold[of "take n vecA"] z e
    by (rule cosineSimilarity_unfold)
qed

lemma round64_exact_small: "round64 1 = Finite 1" "round64 2 = Finite 2"
proof -
  have l: "\<lfloor>log 2 (1::real)\<rfloor> = 0" "\<lfloor>log 2 (2::real)\<rfloor> = 1" by simp_all
  have u: "ulpExponent 1 = - 52" "ulpExponent 2 = - 51" by (simp_all add: ulpExponent_def l)
  have p: "(2::real) powi (- 52) = 1 / 2 ^ 52" "(2::real) powi (- 51) = 1 / 2 ^ 51"
    by (simp_all add: power_int_minus_divide)
  have r: "roundHalfEven 4503599627370496 = 4503599627370496"
    by (simp add: roundHalfEven_def)
  show "round64 1 = Finite 1"
    unfolding round64_def u p Let_def by (simp add: r)
  show "round64 2 = Finite 2"
    unfolding round64_def u p Let_def by (simp add: r)
qed

text \<open>
  The theorem at \<open>[1, 0]\<close> and \<open>[1, 0, 5]\<close> (two components are compared, the cosine is
  1), at \<open>[0, 0]\<close> and \<open>[1, 2]\<close> (a zero vector, the result is 0) and at an empty vector.
\<close>

theorem cosineSimilarity_guarded_witness:
  "[Finite 1, Finite 0] \<noteq> [] \<and> [Finite 1, Finite 0, Finite 5] \<noteq> [] \<and>
   foldl cosineStep (Finite 0, Finite 0, Finite 0) (zip [Finite 1, Finite 0] [Finite 1, Finite 0, Finite 5])
     = (Finite 1, Finite 1, Finite 1) \<and>
   \<not> jsLessEqZero (Finite 1) \<and>
   cosineSimilarity [Finite 1, Finite 0] [Finite 1, Finite 0, Finite 5] = Finite 1 \<and>
   min (length [Finite 0, Finite 0]) (length [Finite 1, Finite 2]) = 2 \<and>
   [Finite 0, Finite 0] ! 0 = Finite 0 \<and> [Finite 0, Finite 0] ! 1 = Finite 0 \<and>
   cosineSimilarity [Finite 0, Finite 0] [Finite 1, Finite 2] = Finite 0 \<and>
   cosineSimilarity [] [Finite 1, Finite 2] = Finite 0"
proof -
  have f: "foldl cosineStep (Finite 0, Finite 0, Finite 0) (zip [Finite 1, Finite 0] [Finite 1, Finite 0, Finite 5])
     = (Finite 1, Finite 1, Finite 1)"
    by (simp add: cosineStep_def round64_exact_small round64_zero)
  have z: "\<forall>k<min (length [Finite 0, Finite 0]) (length [Finite 1, Finite 2]). [Finite 0, Finite 0] ! k = Finite 0"
    by (simp add: less_Suc_eq numeral_2_eq_2)
  have d: "jsDivide (Finite 1) (jsMultiply (jsSqrt (Finite 1)) (jsSqrt (Finite 1))) = Finite 1"
    by (simp add: round64_exact_small)
  have c1: "cosineSimilarity [Finite 1, Finite 0] [Finite 1, Finite 0, Finite 5] = Finite 1"
    using cosineSimilarity_guarded[of "[Finite 1, Finite 0]" "[Finite 1, Finite 0, Finite 5]",
        THEN conjunct2, THEN conjunct2, THEN conjunct1, rule_format, of "Finite 1" "Finite 1" "Finite 1"]
      f d by simp
  have c2: "cosineSimilarity [Finite 0, Finite 0] [Finite 1, Finite 2] = Finite 0"
    using cosineSimilarity_guarded[of "[Finite 0, Finite 0]" "[Finite 1, Finite 2]",
        THEN conjunct2, THEN conjunct1] z by blast
  have c3: "cosineSimilarity [] [Finite 1, Finite 2] = Finite 0"
    using cosineSimilarity_guarded[of "[]" "[Finite 1, Finite 2]", THEN conjunct1] by simp
  show ?thesis using f c1 c2 c3 by simp
qed

text \<open>
  The result need not be finite, and a norm can be zero by underflow: the squares of
  \<open>2 ^ 700\<close> overflow to infinity and the quotient of two infinities is \<open>NaN\<close>, which
  the caller drops with \<open>Number.isFinite\<close>; the square of \<open>2 ^ -600\<close> is rounded to zero
  and the result is 0.
\<close>

lemma cosineSimilarity_overflow:
  "cosineSimilarity [Finite (2 ^ 700)] [Finite (2 ^ 700)] = NaN"
proof -
  have "(2::real) ^ 1024 \<le> 2 ^ 700 * 2 ^ 700"
    unfolding power_add[symmetric] by (rule power_increasing) simp_all
  then have r: "round64 (2 ^ 700 * 2 ^ 700) = PosInfinity" by (rule round64_overflow)
  have m: "jsMultiply (Finite (2 ^ 700)) (Finite (2 ^ 700)) = PosInfinity"
    unfolding jsMultiply.simps r ..
  have "foldl cosineStep (Finite 0, Finite 0, Finite 0) (zip [Finite (2 ^ 700)] [Finite (2 ^ 700)])
      = (PosInfinity, PosInfinity, PosInfinity)"
    unfolding zip.simps list.case foldl.simps cosineStep_def prod.case m by simp
  then show ?thesis unfolding cosineSimilarity_unfold by simp
qed

lemma cosineSimilarity_underflow:
  "cosineSimilarity [Finite (2 powi (- 600))] [Finite (2 powi (- 600))] = Finite 0"
proof -
  have e: "(2::real) powi (- 600) * 2 powi (- 600) = 2 powi (- 1200)"
    using power_int_add[of "2::real" "- 600" "- 600"] by simp
  have "(2::real) powi (- 1200) < 2 powi (- 1075)"
    by (rule power_int_strict_increasing) simp_all
  moreover have "MIN_VALUE / 2 = 2 powi (- 1075)"
    using power_int_add[of "2::real" "- 1075" 1] unfolding MIN_VALUE_def by simp
  ultimately have "(2::real) powi (- 1200) < MIN_VALUE / 2" by simp
  then have r: "round64 (2 powi (- 600) * 2 powi (- 600)) = Finite 0"
    unfolding e by (intro round64_underflow zero_less_power_int) simp_all
  have m: "jsMultiply (Finite (2 powi (- 600))) (Finite (2 powi (- 600))) = Finite 0"
    unfolding jsMultiply.simps r ..
  have "foldl cosineStep (Finite 0, Finite 0, Finite 0)
          (zip [Finite (2 powi (- 600))] [Finite (2 powi (- 600))])
      = (Finite 0, Finite 0, Finite 0)"
    unfolding zip.simps list.case foldl.simps cosineStep_def prod.case m by (simp add: round64_zero)
  then show ?thesis unfolding cosineSimilarity_unfold by simp
qed

section \<open>Proofs: embedding cache\<close>

lemma sameStore_refl: "sameStore st st"
  by (simp add: sameStore_def)

lemma sameStore_trans: "sameStore a b \<Longrightarrow> sameStore b c \<Longrightarrow> sameStore a c"
  by (simp add: sameStore_def)

lemma requestEmbeddings_Inr:
  "requestEmbeddings cfg service texts st = (Inr vectors, st') \<Longrightarrow>
     length vectors = length texts \<and> sameStore st st' \<and>
     embedRequests st' = embedRequests st @ (if texts = [] then [] else [texts])"
  by (auto simp: requestEmbeddings_def Let_def sameStore_def split: if_splits sum.splits)

lemma requestEmbeddings_Inl:
  "requestEmbeddings cfg service texts st = (Inl e, st') \<Longrightarrow> sameStore st st'"
  by (auto simp: requestEmbeddings_def Let_def sameStore_def split: if_splits sum.splits)

lemma pruneLoop_props:
  "pruneLoop keys valid (w, d) = (w', d') \<Longrightarrow>
     map_of (pe_vectors w') = (\<lambda>k. if k \<in> set keys \<and> k \<notin> valid then None else map_of (pe_vectors w) k) \<and>
     map_of (pe_chunkHashes w') = (\<lambda>k. if k \<in> set keys \<and> k \<notin> valid then None else map_of (pe_chunkHashes w) k) \<and>
     d' = (d \<or> (\<exists>k\<in>set keys. k \<notin> valid)) \<and>
     pe_endpoint w' = pe_endpoint w \<and> pe_model w' = pe_model w \<and> pe_updatedAt w' = pe_updatedAt w"
proof (induction keys arbitrary: w d)
  case Nil
  then show ?case by auto
next
  case (Cons key keys)
  show ?case
  proof (cases "key \<in> valid")
    case True
    with Cons.prems have "pruneLoop keys valid (w, d) = (w', d')" by simp
    from Cons.IH[OF this] True show ?thesis by (auto simp: fun_eq_iff)
  next
    case False
    with Cons.prems have "pruneLoop keys valid
          (w\<lparr>pe_vectors := AList.delete key (pe_vectors w),
             pe_chunkHashes := AList.delete key (pe_chunkHashes w)\<rparr>, True) = (w', d')" by simp
    from Cons.IH[OF this] False show ?thesis
      by (auto simp: fun_eq_iff delete_conv')
  qed
qed

lemma pruneLoop_unchanged:
  "\<forall>k\<in>set keys. k \<in> valid \<Longrightarrow> pruneLoop keys valid (w, d) = (w, d)"
  by (induction keys) auto

lemma assignBatch_props:
  "length vectors = length batch \<Longrightarrow> assignBatch batch vectors (w, d) = (w', d') \<Longrightarrow>
     fst ` set (pe_vectors w') = fst ` set (pe_vectors w) \<union> (\<lambda>item. chunk_id (fst item)) ` set batch \<and>
     fst ` set (pe_chunkHashes w') = fst ` set (pe_chunkHashes w) \<union> (\<lambda>item. chunk_id (fst item)) ` set batch \<and>
     d' = (d \<or> batch \<noteq> []) \<and>
     pe_endpoint w' = pe_endpoint w \<and> pe_model w' = pe_model w \<and> pe_updatedAt w' = pe_updatedAt w"
proof (induction vectors batch arbitrary: w d rule: list_induct2)
  case Nil
  then show ?case by simp
next
  case (Cons vector vectors pair batch)
  obtain chunk hash where pair: "pair = (chunk, hash)" by (cases pair)
  from Cons.prems have eq: "assignBatch batch vectors
       (w\<lparr>pe_vectors := AList.update (chunk_id chunk) vector (pe_vectors w),
          pe_chunkHashes := AList.update (chunk_id chunk) hash (pe_chunkHashes w)\<rparr>, True)
       = (w', d')" by (simp add: pair)
  from Cons.IH[OF eq] show ?case
    by (auto simp: dom_update pair)
qed


lemma embedBatches_Inl:
  "embedBatches cfg service missing (w, d) st = (Inl e, st') \<Longrightarrow> sameStore st st'"
proof (induction cfg service missing "(w, d)" st arbitrary: w d rule: embedBatches.induct)
  case (1 cfg service missing working dirty st)
  show ?case
  proof (cases "missing = []")
    case True
    with "1.prems" show ?thesis by (simp add: embedBatches.simps)
  next
    case False
    define batch where "batch = take EMBEDDING_BATCH_SIZE missing"
    obtain r st1 where req: "requestEmbeddings cfg service (map (\<lambda>item. chunk_text (fst item)) batch) st = (r, st1)"
      by (cases "requestEmbeddings cfg service (map (\<lambda>item. chunk_text (fst item)) batch) st")
    show ?thesis
    proof (cases r)
      case (Inl err)
      with "1.prems" False req have "st' = st1"
        by (simp add: embedBatches.simps[of _ _ missing] batch_def)
      with req Inl show ?thesis by (auto dest: requestEmbeddings_Inl)
    next
      case (Inr vectors)
      obtain w1 d1 where asg: "assignBatch batch vectors (working, dirty) = (w1, d1)"
        by (cases "assignBatch batch vectors (working, dirty)")
      from "1.prems" False req Inr asg
      have rec: "embedBatches cfg service (drop EMBEDDING_BATCH_SIZE missing) (w1, d1) st1 = (Inl e, st')"
        by (simp add: embedBatches.simps[of _ _ missing] batch_def)
      have "sameStore st1 st'"
        by (rule "1.hyps"[OF False batch_def req[symmetric] Inr asg rec])
      moreover have "sameStore st st1" using req Inr by (auto dest: requestEmbeddings_Inr)
      ultimately show ?thesis by (rule sameStore_trans[rotated])
    qed
  qed
qed


lemma embedBatches_Inr:
  "embedBatches cfg service missing (w, d) st = (Inr (w', d'), st') \<Longrightarrow>
     sameStore st st' \<and>
     (\<exists>rs. embedRequests st' = embedRequests st @ rs \<and>
           concat rs = map (\<lambda>item. chunk_text (fst item)) missing \<and>
           (\<forall>r\<in>set rs. r \<noteq> [] \<and> length r \<le> EMBEDDING_BATCH_SIZE)) \<and>
     fst ` set (pe_vectors w') = fst ` set (pe_vectors w) \<union> (\<lambda>item. chunk_id (fst item)) ` set missing \<and>
     fst ` set (pe_chunkHashes w') = fst ` set (pe_chunkHashes w) \<union> (\<lambda>item. chunk_id (fst item)) ` set missing \<and>
     d' = (d \<or> missing \<noteq> []) \<and>
     pe_endpoint w' = pe_endpoint w \<and> pe_model w' = pe_model w \<and> pe_updatedAt w' = pe_updatedAt w"
proof (induction cfg service missing "(w, d)" st arbitrary: w d rule: embedBatches.induct)
  case (1 cfg service missing working dirty st)
  show ?case
  proof (cases "missing = []")
    case True
    with "1.prems" show ?thesis by (simp add: embedBatches.simps sameStore_refl)
  next
    case False
    define batch where "batch = take EMBEDDING_BATCH_SIZE missing"
    define rest where "rest = drop EMBEDDING_BATCH_SIZE missing"
    have split: "missing = batch @ rest" by (simp add: batch_def rest_def)
    have bne: "batch \<noteq> []" and blen: "length batch \<le> EMBEDDING_BATCH_SIZE"
      using False by (auto simp: batch_def EMBEDDING_BATCH_SIZE_def)
    obtain r st1 where req: "requestEmbeddings cfg service (map (\<lambda>item. chunk_text (fst item)) batch) st = (r, st1)"
      by (cases "requestEmbeddings cfg service (map (\<lambda>item. chunk_text (fst item)) batch) st")
    show ?thesis
    proof (cases r)
      case (Inl err)
      with "1.prems" False req show ?thesis
        by (simp add: embedBatches.simps[of _ _ missing] batch_def)
    next
      case (Inr vectors)
      obtain w1 d1 where asg: "assignBatch batch vectors (working, dirty) = (w1, d1)"
        by (cases "assignBatch batch vectors (working, dirty)")
      from "1.prems" False req Inr asg
      have rec: "embedBatches cfg service rest (w1, d1) st1 = (Inr (w', d'), st')"
        by (simp add: embedBatches.simps[of _ _ missing] batch_def rest_def)
      note IH = "1.hyps"[OF False batch_def req[symmetric] Inr asg rec[unfolded rest_def], folded rest_def]
      from req Inr have rq: "length vectors = length batch" "sameStore st st1"
          "embedRequests st1 = embedRequests st @ [map (\<lambda>item. chunk_text (fst item)) batch]"
        using bne by (auto dest!: requestEmbeddings_Inr)
      note ab = assignBatch_props[OF rq(1) asg]
      note ih_same = IH[THEN conjunct1]
      note ih_rs = IH[THEN conjunct2, THEN conjunct1]
      note ih_kv = IH[THEN conjunct2, THEN conjunct2, THEN conjunct1]
      note ih_kh = IH[THEN conjunct2, THEN conjunct2, THEN conjunct2, THEN conjunct1]
      note ih_rest = IH[THEN conjunct2, THEN conjunct2, THEN conjunct2, THEN conjunct2]
      note ab_kv = ab[THEN conjunct1]
      note ab_kh = ab[THEN conjunct2, THEN conjunct1]
      note ab_rest = ab[THEN conjunct2, THEN conjunct2]
      from ih_rs obtain rs where rs: "embedRequests st' = embedRequests st1 @ rs"
          "concat rs = map (\<lambda>item. chunk_text (fst item)) rest"
          "\<forall>r\<in>set rs. r \<noteq> [] \<and> length r \<le> EMBEDDING_BATCH_SIZE"
        by (elim exE conjE)
      have reqs: "\<exists>rs. embedRequests st' = embedRequests st @ rs \<and>
           concat rs = map (\<lambda>item. chunk_text (fst item)) missing \<and>
           (\<forall>r\<in>set rs. r \<noteq> [] \<and> length r \<le> EMBEDDING_BATCH_SIZE)"
      proof (intro exI[of _ "map (\<lambda>item. chunk_text (fst item)) batch # rs"] conjI)
        show "embedRequests st' = embedRequests st @ map (\<lambda>item. chunk_text (fst item)) batch # rs"
          by (simp add: rs(1) rq(3))
        show "concat (map (\<lambda>item. chunk_text (fst item)) batch # rs) = map (\<lambda>item. chunk_text (fst item)) missing"
          by (simp add: rs(2) split)
        show "\<forall>r\<in>set (map (\<lambda>item. chunk_text (fst item)) batch # rs). r \<noteq> [] \<and> length r \<le> EMBEDDING_BATCH_SIZE"
          using rs(3) bne blen by simp
      qed
      have same: "sameStore st st'" using rq(2) ih_same by (rule sameStore_trans)
      have sm: "set missing = set batch \<union> set rest" by (simp add: split)
      have keys: "fst ` set (pe_vectors w') = fst ` set (pe_vectors working) \<union> (\<lambda>item. chunk_id (fst item)) ` set missing"
        "fst ` set (pe_chunkHashes w') = fst ` set (pe_chunkHashes working) \<union> (\<lambda>item. chunk_id (fst item)) ` set missing"
        unfolding ih_kv ih_kh ab_kv ab_kh sm by (simp_all add: image_Un Un_assoc)
      have rest': "d' = (dirty \<or> missing \<noteq> [])" "pe_endpoint w' = pe_endpoint working"
        "pe_model w' = pe_model working" "pe_updatedAt w' = pe_updatedAt working"
        using ih_rest ab_rest bne False by simp_all
      show ?thesis by (intro conjI same reqs keys rest')
    qed
  qed
qed

lemma requestEmbeddings_service:
  "requestEmbeddings cfg service texts st = (Inr vectors, st') \<Longrightarrow> texts \<noteq> [] \<Longrightarrow>
     service texts = Inr vectors"
  by (auto simp: requestEmbeddings_def Let_def split: if_splits sum.splits)

lemma map_add_rev_Cons:
  "m ++ map_of (rev ((k, v) # zs)) = (m(k \<mapsto> v)) ++ map_of (rev zs)"
  by (rule ext) (simp add: map_add_def split: option.splits)

lemma assignBatch_values:
  "length vectors = length batch \<Longrightarrow> assignBatch batch vectors (w, d) = (w', d') \<Longrightarrow>
     map_of (pe_vectors w') =
       map_of (pe_vectors w) ++ map_of (rev (zip (map (\<lambda>item. chunk_id (fst item)) batch) vectors)) \<and>
     map_of (pe_chunkHashes w') =
       map_of (pe_chunkHashes w) ++ map_of (rev (zip (map (\<lambda>item. chunk_id (fst item)) batch) (map snd batch)))"
proof (induction vectors batch arbitrary: w d rule: list_induct2)
  case Nil
  then show ?case by simp
next
  case (Cons vector vectors pair batch)
  obtain chunk hash where pair: "pair = (chunk, hash)" by (cases pair)
  define w1 where "w1 = w\<lparr>pe_vectors := AList.update (chunk_id chunk) vector (pe_vectors w),
          pe_chunkHashes := AList.update (chunk_id chunk) hash (pe_chunkHashes w)\<rparr>"
  from Cons.prems have eq: "assignBatch batch vectors (w1, True) = (w', d')"
    by (simp add: pair w1_def)
  have s: "map_of (pe_vectors w1) = (map_of (pe_vectors w))(chunk_id chunk \<mapsto> vector)"
    "map_of (pe_chunkHashes w1) = (map_of (pe_chunkHashes w))(chunk_id chunk \<mapsto> hash)"
  proof -
    have sel: "pe_vectors w1 = AList.update (chunk_id chunk) vector (pe_vectors w)"
      "pe_chunkHashes w1 = AList.update (chunk_id chunk) hash (pe_chunkHashes w)"
      by (simp_all add: w1_def)
    show "map_of (pe_vectors w1) = (map_of (pe_vectors w))(chunk_id chunk \<mapsto> vector)"
      unfolding sel by (rule update_conv')
    show "map_of (pe_chunkHashes w1) = (map_of (pe_chunkHashes w))(chunk_id chunk \<mapsto> hash)"
      unfolding sel by (rule update_conv')
  qed
  have z: "zip (map (\<lambda>item. chunk_id (fst item)) (pair # batch)) (vector # vectors)
             = (chunk_id chunk, vector) # zip (map (\<lambda>item. chunk_id (fst item)) batch) vectors"
    "zip (map (\<lambda>item. chunk_id (fst item)) (pair # batch)) (map snd (pair # batch))
             = (chunk_id chunk, hash) # zip (map (\<lambda>item. chunk_id (fst item)) batch) (map snd batch)"
    by (simp_all add: pair)
  show ?case
    unfolding z map_add_rev_Cons using Cons.IH[OF eq] unfolding s .
qed

lemma embedBatches_values:
  "embedBatches cfg service missing (w, d) st = (Inr (w', d'), st') \<Longrightarrow>
     (\<exists>rs answers.
         embedRequests st' = embedRequests st @ rs \<and>
         list_all2 (\<lambda>r a. service r = Inr a \<and> length a = length r) rs answers \<and>
         length (concat answers) = length missing \<and>
         map_of (pe_vectors w') =
           map_of (pe_vectors w)
             ++ map_of (rev (zip (map (\<lambda>item. chunk_id (fst item)) missing) (concat answers))) \<and>
         map_of (pe_chunkHashes w') =
           map_of (pe_chunkHashes w)
             ++ map_of (rev (zip (map (\<lambda>item. chunk_id (fst item)) missing) (map snd missing))))"
proof (induction cfg service missing "(w, d)" st arbitrary: w d rule: embedBatches.induct)
  case (1 cfg service missing working dirty st)
  show ?case
  proof (cases "missing = []")
    case True
    with "1.prems" have "st' = st" "w' = working" by (simp_all add: embedBatches.simps)
    then show ?thesis using True
      by (intro exI[of _ "[]"]) simp
  next
    case False
    define batch where "batch = take EMBEDDING_BATCH_SIZE missing"
    define rest where "rest = drop EMBEDDING_BATCH_SIZE missing"
    have split: "missing = batch @ rest" by (simp add: batch_def rest_def)
    have bne: "batch \<noteq> []"
      using False by (auto simp: batch_def EMBEDDING_BATCH_SIZE_def)
    obtain r st1 where req: "requestEmbeddings cfg service (map (\<lambda>item. chunk_text (fst item)) batch) st = (r, st1)"
      by (cases "requestEmbeddings cfg service (map (\<lambda>item. chunk_text (fst item)) batch) st")
    show ?thesis
    proof (cases r)
      case (Inl err)
      with "1.prems" False req show ?thesis
        by (simp add: embedBatches.simps[of _ _ missing] batch_def)
    next
      case (Inr vectors)
      obtain w1 d1 where asg: "assignBatch batch vectors (working, dirty) = (w1, d1)"
        by (cases "assignBatch batch vectors (working, dirty)")
      from "1.prems" False req Inr asg
      have rec: "embedBatches cfg service rest (w1, d1) st1 = (Inr (w', d'), st')"
        by (simp add: embedBatches.simps[of _ _ missing] batch_def rest_def)
      note IH = "1.hyps"[OF False batch_def req[symmetric] Inr asg rec[unfolded rest_def], folded rest_def]
      from req Inr have rq: "length vectors = length batch"
          "embedRequests st1 = embedRequests st @ [map (\<lambda>item. chunk_text (fst item)) batch]"
        using bne by (auto dest!: requestEmbeddings_Inr)
      have sv: "service (map (\<lambda>item. chunk_text (fst item)) batch) = Inr vectors"
        using req Inr bne by (intro requestEmbeddings_service[of cfg service _ st vectors st1]) simp_all
      note ab = assignBatch_values[OF rq(1) asg]
      from IH obtain rs answers where ih:
          "embedRequests st' = embedRequests st1 @ rs"
          "list_all2 (\<lambda>r a. service r = Inr a \<and> length a = length r) rs answers"
          "length (concat answers) = length rest"
          "map_of (pe_vectors w') =
             map_of (pe_vectors w1)
               ++ map_of (rev (zip (map (\<lambda>item. chunk_id (fst item)) rest) (concat answers)))"
          "map_of (pe_chunkHashes w') =
             map_of (pe_chunkHashes w1)
               ++ map_of (rev (zip (map (\<lambda>item. chunk_id (fst item)) rest) (map snd rest)))"
        by (elim exE conjE)
      show ?thesis
      proof (intro exI[of _ "map (\<lambda>item. chunk_text (fst item)) batch # rs"]
                   exI[of _ "vectors # answers"] conjI)
        show "embedRequests st' = embedRequests st @ map (\<lambda>item. chunk_text (fst item)) batch # rs"
          by (simp add: ih(1) rq(2))
        show "list_all2 (\<lambda>r a. service r = Inr a \<and> length a = length r)
                (map (\<lambda>item. chunk_text (fst item)) batch # rs) (vectors # answers)"
          using ih(2) sv rq(1) by simp
        show "length (concat (vectors # answers)) = length missing"
          using ih(3) rq(1) by (simp add: split)
        show "map_of (pe_vectors w') =
           map_of (pe_vectors working)
             ++ map_of (rev (zip (map (\<lambda>item. chunk_id (fst item)) missing) (concat (vectors # answers))))"
          unfolding ih(4) ab[THEN conjunct1] split
          using rq(1) by (simp add: zip_append map_add_assoc)
        show "map_of (pe_chunkHashes w') =
           map_of (pe_chunkHashes working)
             ++ map_of (rev (zip (map (\<lambda>item. chunk_id (fst item)) missing) (map snd missing)))"
          unfolding ih(5) ab[THEN conjunct2] split
          by (simp add: zip_append map_add_assoc)
      qed
    qed
  qed
qed

lemma in_keys_iff: "k \<in> fst ` set al \<longleftrightarrow> map_of al k \<noteq> None"
  by (simp add: map_of_eq_None_iff)

text \<open>
  Claim C5.  \<open>getOrCreateChunkEmbeddings\<close>, for a stored entry whose hash keys are
  among its vector keys (as in every entry this function writes): a failed embedding
  request leaves the store and the written payloads unchanged.  On success the texts sent
  to the embedding endpoint, in batches of at most \<open>EMBEDDING_BATCH_SIZE\<close>, are exactly
  the texts of the chunks of the index for which the entry is reset (absent, or of another
  endpoint or model), or the stored hash differs from the recomputed one, or the stored
  vector is missing or empty; \<open>answers\<close> are the vectors the endpoint returned for the
  batches.  The resulting entry \<open>w\<close> holds, for the configured endpoint and model, the
  kept vectors and hashes of the stored entry (none of them when the entry is reset, those
  of the chunk ids of the index otherwise) overwritten for every chunk embedded again by
  the vector returned for it and by its recomputed hash; its vector keys and hash keys are
  exactly the chunk ids of the index; and the result of the call is its non-empty
  vectors.  If the entry is reset, or a stored key is not a chunk id of the index, or
  some chunk is embedded again, then \<open>w\<close> with \<open>updatedAt\<close> refreshed is stored and
  the store is persisted once; otherwise \<open>w\<close> is the stored entry, nothing is written
  and the state is unchanged.
\<close>

theorem getOrCreateChunkEmbeddings_cache:
  assumes load: "loadStore st0 = (store, st)"
    and inv: "\<forall>e. embeddings store paperID = Some e \<longrightarrow>
                 fst ` set (pe_chunkHashes e) \<subseteq> fst ` set (pe_vectors e)"
    and run: "getOrCreateChunkEmbeddings cfg service now paperID index st0 = (res, st')"
  shows "(\<forall>err. res = Inl err \<longrightarrow> storeCache st' = storeCache st \<and> storeWrites st' = storeWrites st) \<and>
    (\<forall>vectors. res = Inr vectors \<longrightarrow>
       (\<exists>rs answers w.
          embedRequests st' = embedRequests st @ rs \<and>
          concat rs = map chunk_text
                        (filter (reembedded cfg (embeddings store paperID)) (pi_chunks index)) \<and>
          (\<forall>r\<in>set rs. r \<noteq> [] \<and> length r \<le> EMBEDDING_BATCH_SIZE) \<and>
          list_all2 (\<lambda>r a. service r = Inr a \<and> length a = length r) rs answers \<and>
          map_of (pe_vectors w) =
            keptVectors cfg (embeddings store paperID) index
              ++ map_of (rev (zip (map chunk_id
                                     (filter (reembedded cfg (embeddings store paperID)) (pi_chunks index)))
                                  (concat answers))) \<and>
          map_of (pe_chunkHashes w) =
            keptHashes cfg (embeddings store paperID) index
              ++ map_of (rev (zip (map chunk_id
                                     (filter (reembedded cfg (embeddings store paperID)) (pi_chunks index)))
                                  (map (\<lambda>chunk. hashText (chunk_text chunk))
                                     (filter (reembedded cfg (embeddings store paperID)) (pi_chunks index))))) \<and>
          fst ` set (pe_vectors w) = chunk_id ` set (pi_chunks index) \<and>
          fst ` set (pe_chunkHashes w) = chunk_id ` set (pi_chunks index) \<and>
          pe_endpoint w = ec_endpoint cfg \<and> pe_model w = ec_model cfg \<and>
          vectors = filter (\<lambda>(chunkID, vector). vector \<noteq> []) (pe_vectors w) \<and>
          (if cacheReset cfg (embeddings store paperID) \<or>
              staleKeys cfg (embeddings store paperID) index \<noteq> {} \<or>
              (\<exists>c\<in>set (pi_chunks index). reembedded cfg (embeddings store paperID) c)
           then storeCache st' =
                  Some (store\<lparr>embeddings := (embeddings store)(paperID \<mapsto> w\<lparr>pe_updatedAt := now\<rparr>)\<rparr>) \<and>
                storeWrites st' =
                  storeWrites st @ [store\<lparr>embeddings := (embeddings store)(paperID \<mapsto> w\<lparr>pe_updatedAt := now\<rparr>)\<rparr>]
           else st' = st \<and> embeddings store paperID = Some w)))"
proof -
  define entry where "entry = embeddings store paperID"
  define reset where "reset = cacheReset cfg entry"
  define fresh where "fresh = \<lparr>pe_endpoint = ec_endpoint cfg, pe_model = ec_model cfg,
                                pe_chunkHashes = [], pe_vectors = [], pe_updatedAt = now\<rparr>"
  define working0 where "working0 = (if reset then fresh else the entry)"
  define valid where "valid = set (map chunk_id (pi_chunks index))"
  define pruned where "pruned = pruneLoop (map fst (pe_vectors working0)) valid (working0, reset)"
  define missing where "missing = missingChunks (fst pruned) (pi_chunks index)"
  obtain w1 d1 where pr: "pruned = (w1, d1)" by (cases pruned)
  have unfold: "getOrCreateChunkEmbeddings cfg service now paperID index st0 =
     (case embedBatches cfg service missing (w1, d1) st of
        (Inl e, st') \<Rightarrow> (Inl e, st')
      | (Inr (working, dirty), st') \<Rightarrow>
          if dirty then
            (Inr (filter (\<lambda>(chunkID, vector). vector \<noteq> []) (pe_vectors working)),
             persistStore (store\<lparr>embeddings := (embeddings store)(paperID \<mapsto> working\<lparr>pe_updatedAt := now\<rparr>)\<rparr>) st')
          else (Inr (filter (\<lambda>(chunkID, vector). vector \<noteq> []) (pe_vectors working)), st'))"
    unfolding pr[symmetric] missing_def pruned_def working0_def fresh_def reset_def entry_def valid_def
      getOrCreateChunkEmbeddings_def load cacheReset_def
    by (cases "embeddings store paperID") (simp_all add: Let_def split: sum.splits prod.splits)
  have cfg0: "pe_endpoint working0 = ec_endpoint cfg \<and> pe_model working0 = ec_model cfg"
    by (auto simp: working0_def fresh_def reset_def cacheReset_def entry_def split: option.splits)
  note pp = pruneLoop_props[OF pr[unfolded pruned_def]]
  have w1v: "map_of (pe_vectors w1) = (\<lambda>k. if k \<in> valid then map_of (pe_vectors working0) k else None)"
    using pp[THEN conjunct1] by (auto simp: fun_eq_iff map_of_eq_None_iff)
  have w1h: "map_of (pe_chunkHashes w1) =
      (\<lambda>k. if k \<in> fst ` set (pe_vectors working0) \<and> k \<notin> valid then None else map_of (pe_chunkHashes working0) k)"
    using pp[THEN conjunct2, THEN conjunct1] by simp
  have d1: "d1 = (reset \<or> staleKeys cfg entry index \<noteq> {})"
    using pp[THEN conjunct2, THEN conjunct2, THEN conjunct1]
    by (auto simp: staleKeys_def reset_def working0_def fresh_def valid_def cacheReset_def split: option.splits)
  have w1cfg: "pe_endpoint w1 = ec_endpoint cfg" "pe_model w1 = ec_model cfg"
    using pp cfg0 by auto
  have inv0: "fst ` set (pe_chunkHashes working0) \<subseteq> fst ` set (pe_vectors working0)"
    using inv by (auto simp: working0_def fresh_def reset_def cacheReset_def entry_def split: option.splits)
  have need: "needsEmbedding w1 c = reembedded cfg entry c" if "c \<in> set (pi_chunks index)" for c
  proof -
    have v: "chunk_id c \<in> valid" using that by (simp add: valid_def)
    show ?thesis
    proof (cases reset)
      case True
      then show ?thesis
        using v by (simp add: needsEmbedding_def reembedded_def reset_def w1v w1h working0_def fresh_def)
    next
      case False
      then obtain e where e: "entry = Some e"
        by (cases entry) (auto simp: reset_def cacheReset_def)
      have nr: "\<not> cacheReset cfg (Some e)" using False e by (simp add: reset_def)
      show ?thesis
        using v False nr
        by (auto simp: needsEmbedding_def reembedded_def e w1v w1h working0_def
            split: option.splits)
    qed
  qed
  have filt: "filter (needsEmbedding w1) (pi_chunks index) = filter (reembedded cfg entry) (pi_chunks index)"
    by (rule filter_cong) (auto simp: need)
  have missing_texts: "map (\<lambda>item. chunk_text (fst item)) missing
      = map chunk_text (filter (reembedded cfg entry) (pi_chunks index))"
    by (simp add: missing_def pr missingChunks_def filt comp_def)
  have missing_ids: "(\<lambda>item. chunk_id (fst item)) ` set missing
      = chunk_id ` {c \<in> set (pi_chunks index). reembedded cfg entry c}"
    by (simp add: missing_def pr missingChunks_def filt image_image)
  have missing_ne: "missing \<noteq> [] \<longleftrightarrow> (\<exists>c\<in>set (pi_chunks index). reembedded cfg entry c)"
    by (auto simp: missing_def pr missingChunks_def filt filter_empty_conv)
  obtain r st1 where eb: "embedBatches cfg service missing (w1, d1) st = (r, st1)"
    by (cases "embedBatches cfg service missing (w1, d1) st")
  show ?thesis
  proof (cases r)
    case (Inl err)
    with run unfold eb have "res = Inl err" "st' = st1" by auto
    moreover have "sameStore st st1" using eb Inl by (auto dest: embedBatches_Inl)
    ultimately show ?thesis by (simp add: sameStore_def)
  next
    case (Inr wd)
    obtain w2 d2 where wd: "wd = (w2, d2)" by (cases wd)
    note ok = embedBatches_Inr[OF eb[unfolded Inr wd]]
    note ok_same = ok[THEN conjunct1]
    note ok_rs = ok[THEN conjunct2, THEN conjunct1]
    note ok_kv = ok[THEN conjunct2, THEN conjunct2, THEN conjunct1]
    note ok_kh = ok[THEN conjunct2, THEN conjunct2, THEN conjunct2, THEN conjunct1]
    note ok_d = ok[THEN conjunct2, THEN conjunct2, THEN conjunct2, THEN conjunct2, THEN conjunct1]
    note ok_cfg = ok[THEN conjunct2, THEN conjunct2, THEN conjunct2, THEN conjunct2, THEN conjunct2]
    have same: "sameStore st st1" by (rule ok_same)
    have reqs: "\<exists>rs. embedRequests st1 = embedRequests st @ rs \<and>
             concat rs = map chunk_text (filter (reembedded cfg entry) (pi_chunks index)) \<and>
             (\<forall>r\<in>set rs. r \<noteq> [] \<and> length r \<le> EMBEDDING_BATCH_SIZE)"
      using ok_rs unfolding missing_texts .
    have d2: "d2 = (reset \<or> staleKeys cfg entry index \<noteq> {} \<or>
                   (\<exists>c\<in>set (pi_chunks index). reembedded cfg entry c))"
      unfolding ok_d d1 missing_ne by simp
    have w2cfg: "pe_endpoint w2 = ec_endpoint cfg" "pe_model w2 = ec_model cfg"
      using ok_cfg w1cfg by simp_all
    have kv: "fst ` set (pe_vectors w2) = chunk_id ` set (pi_chunks index)"
    proof -
      have eq: "fst ` set (pe_vectors w2) = fst ` set (pe_vectors w1) \<union>
              chunk_id ` {c \<in> set (pi_chunks index). reembedded cfg entry c}"
        unfolding ok_kv ok_kh missing_ids by simp
      have subA: "fst ` set (pe_vectors w1) \<subseteq> valid"
      proof
        fix k assume "k \<in> fst ` set (pe_vectors w1)"
        then have "map_of (pe_vectors w1) k \<noteq> None" by (simp add: map_of_eq_None_iff)
        then show "k \<in> valid" by (auto simp: w1v split: if_splits)
      qed
      have sup: "valid \<subseteq> fst ` set (pe_vectors w1) \<union>
              chunk_id ` {c \<in> set (pi_chunks index). reembedded cfg entry c}"
      proof
        fix k assume "k \<in> valid"
        then obtain c where c: "c \<in> set (pi_chunks index)" "k = chunk_id c"
          by (auto simp: valid_def)
        show "k \<in> fst ` set (pe_vectors w1) \<union>
              chunk_id ` {c \<in> set (pi_chunks index). reembedded cfg entry c}"
        proof (cases "reembedded cfg entry c")
          case True
          then show ?thesis using c by blast
        next
          case False
          then have "\<not> needsEmbedding w1 c" using need[OF c(1)] by simp
          then have "map_of (pe_vectors w1) k \<noteq> None"
            by (auto simp: needsEmbedding_def c(2) split: option.splits)
          then have "k \<in> fst ` set (pe_vectors w1)" by (simp add: map_of_eq_None_iff)
          then show ?thesis by blast
        qed
      qed
      have subB: "chunk_id ` {c \<in> set (pi_chunks index). reembedded cfg entry c} \<subseteq> valid"
        by (auto simp: valid_def)
      have "fst ` set (pe_vectors w2) = valid"
        unfolding eq by (intro equalityI Un_least subA subB sup)
      then show ?thesis by (simp add: valid_def)
    qed
    have kh: "fst ` set (pe_chunkHashes w2) = chunk_id ` set (pi_chunks index)"
    proof -
      have eq: "fst ` set (pe_chunkHashes w2) = fst ` set (pe_chunkHashes w1) \<union>
              chunk_id ` {c \<in> set (pi_chunks index). reembedded cfg entry c}"
        unfolding ok_kv ok_kh missing_ids by simp
      have subA: "fst ` set (pe_chunkHashes w1) \<subseteq> valid"
      proof
        fix k assume "k \<in> fst ` set (pe_chunkHashes w1)"
        then have ne: "map_of (pe_chunkHashes w1) k \<noteq> None" by (simp add: map_of_eq_None_iff)
        then have "map_of (pe_chunkHashes working0) k \<noteq> None"
          by (auto simp: w1h split: if_splits)
        then have "k \<in> fst ` set (pe_chunkHashes working0)"
          by (simp add: map_of_eq_None_iff)
        then have "k \<in> fst ` set (pe_vectors working0)" using inv0 by blast
        with ne show "k \<in> valid" by (auto simp: w1h split: if_splits)
      qed
      have sup: "valid \<subseteq> fst ` set (pe_chunkHashes w1) \<union>
              chunk_id ` {c \<in> set (pi_chunks index). reembedded cfg entry c}"
      proof
        fix k assume "k \<in> valid"
        then obtain c where c: "c \<in> set (pi_chunks index)" "k = chunk_id c"
          by (auto simp: valid_def)
        show "k \<in> fst ` set (pe_chunkHashes w1) \<union>
              chunk_id ` {c \<in> set (pi_chunks index). reembedded cfg entry c}"
        proof (cases "reembedded cfg entry c")
          case True
          then show ?thesis using c by blast
        next
          case False
          then have "\<not> needsEmbedding w1 c" using need[OF c(1)] by simp
          then have "map_of (pe_chunkHashes w1) k \<noteq> None"
            by (auto simp: needsEmbedding_def c(2) split: option.splits)
          then have "k \<in> fst ` set (pe_chunkHashes w1)" by (simp add: map_of_eq_None_iff)
          then show ?thesis by blast
        qed
      qed
      have subB: "chunk_id ` {c \<in> set (pi_chunks index). reembedded cfg entry c} \<subseteq> valid"
        by (auto simp: valid_def)
      have "fst ` set (pe_chunkHashes w2) = valid"
        unfolding eq by (intro equalityI Un_least subA subB sup)
      then show ?thesis by (simp add: valid_def)
    qed
    from embedBatches_values[OF eb[unfolded Inr wd]] obtain rs answers where vals:
      "embedRequests st1 = embedRequests st @ rs"
      "list_all2 (\<lambda>r a. service r = Inr a \<and> length a = length r) rs answers"
      "map_of (pe_vectors w2) =
         map_of (pe_vectors w1)
           ++ map_of (rev (zip (map (\<lambda>item. chunk_id (fst item)) missing) (concat answers)))"
      "map_of (pe_chunkHashes w2) =
         map_of (pe_chunkHashes w1)
           ++ map_of (rev (zip (map (\<lambda>item. chunk_id (fst item)) missing) (map snd missing)))"
      by (elim exE conjE)
    from reqs obtain rs0 where rs0: "embedRequests st1 = embedRequests st @ rs0"
      "concat rs0 = map chunk_text (filter (reembedded cfg entry) (pi_chunks index))"
      "\<forall>r\<in>set rs0. r \<noteq> [] \<and> length r \<le> EMBEDDING_BATCH_SIZE"
      by (elim exE conjE)
    have "rs0 = rs" using rs0(1) vals(1) by simp
    then have rsp: "concat rs = map chunk_text (filter (reembedded cfg entry) (pi_chunks index))"
      "\<forall>r\<in>set rs. r \<noteq> [] \<and> length r \<le> EMBEDDING_BATCH_SIZE"
      using rs0(2,3) by simp_all
    have kept_v: "map_of (pe_vectors w1) = keptVectors cfg entry index"
    proof (cases reset)
      case True
      then show ?thesis
        by (auto simp: w1v working0_def fresh_def keptVectors_def reset_def fun_eq_iff
            split: option.splits)
    next
      case False
      then obtain e where e: "entry = Some e"
        by (cases entry) (auto simp: reset_def cacheReset_def)
      show ?thesis
        using False by (auto simp: w1v working0_def keptVectors_def reset_def e valid_def fun_eq_iff)
    qed
    have w1h': "map_of (pe_chunkHashes w1) = (\<lambda>k. if k \<in> valid then map_of (pe_chunkHashes working0) k else None)"
    proof (rule ext)
      fix k
      show "map_of (pe_chunkHashes w1) k = (if k \<in> valid then map_of (pe_chunkHashes working0) k else None)"
      proof (cases "k \<in> valid")
        case True
        then show ?thesis by (simp add: w1h)
      next
        case False
        show ?thesis
        proof (cases "k \<in> fst ` set (pe_vectors working0)")
          case True
          then show ?thesis using False by (simp add: w1h)
        next
          case nv: False
          then have "k \<notin> fst ` set (pe_chunkHashes working0)" using inv0 by blast
          then have "map_of (pe_chunkHashes working0) k = None" by (simp add: map_of_eq_None_iff)
          then show ?thesis using False nv by (simp add: w1h)
        qed
      qed
    qed
    have kept_h: "map_of (pe_chunkHashes w1) = keptHashes cfg entry index"
    proof (cases reset)
      case True
      then show ?thesis
        by (auto simp: w1h' working0_def fresh_def keptHashes_def reset_def fun_eq_iff
            split: option.splits)
    next
      case False
      then obtain e where e: "entry = Some e"
        by (cases entry) (auto simp: reset_def cacheReset_def)
      show ?thesis
        using False by (auto simp: w1h' working0_def keptHashes_def reset_def e valid_def fun_eq_iff)
    qed
    have mids: "map (\<lambda>item. chunk_id (fst item)) missing
        = map chunk_id (filter (reembedded cfg entry) (pi_chunks index))"
      and mhs: "map snd missing
        = map (\<lambda>chunk. hashText (chunk_text chunk)) (filter (reembedded cfg entry) (pi_chunks index))"
      by (simp_all add: missing_def pr missingChunks_def filt comp_def)
    have mv: "map_of (pe_vectors w2) =
        keptVectors cfg entry index
          ++ map_of (rev (zip (map chunk_id (filter (reembedded cfg entry) (pi_chunks index)))
                              (concat answers)))"
      unfolding vals(3) kept_v mids ..
    have mh: "map_of (pe_chunkHashes w2) =
        keptHashes cfg entry index
          ++ map_of (rev (zip (map chunk_id (filter (reembedded cfg entry) (pi_chunks index)))
                              (map (\<lambda>chunk. hashText (chunk_text chunk))
                                 (filter (reembedded cfg entry) (pi_chunks index)))))"
      unfolding vals(4) kept_h mids mhs ..
    have fin: "(if reset \<or> staleKeys cfg entry index \<noteq> {} \<or>
                  (\<exists>c\<in>set (pi_chunks index). reembedded cfg entry c)
           then storeCache st' =
                  Some (store\<lparr>embeddings := (embeddings store)(paperID \<mapsto> w2\<lparr>pe_updatedAt := now\<rparr>)\<rparr>) \<and>
                storeWrites st' =
                  storeWrites st @ [store\<lparr>embeddings := (embeddings store)(paperID \<mapsto> w2\<lparr>pe_updatedAt := now\<rparr>)\<rparr>]
           else st' = st \<and> entry = Some w2) \<and>
         res = Inr (filter (\<lambda>(chunkID, vector). vector \<noteq> []) (pe_vectors w2)) \<and>
         embedRequests st' = embedRequests st @ rs"
    proof (cases d2)
      case True
      from run unfold eb Inr wd True
      have res: "res = Inr (filter (\<lambda>(chunkID, vector). vector \<noteq> []) (pe_vectors w2))"
        and st': "st' = persistStore (store\<lparr>embeddings := (embeddings store)(paperID \<mapsto> w2\<lparr>pe_updatedAt := now\<rparr>)\<rparr>) st1"
        by auto
      have "storeCache st' = Some (store\<lparr>embeddings := (embeddings store)(paperID \<mapsto> w2\<lparr>pe_updatedAt := now\<rparr>)\<rparr>) \<and>
            storeWrites st' = storeWrites st @ [store\<lparr>embeddings := (embeddings store)(paperID \<mapsto> w2\<lparr>pe_updatedAt := now\<rparr>)\<rparr>]"
        using same by (simp add: st' persistStore_def sameStore_def)
      moreover have "embedRequests st' = embedRequests st @ rs"
        using vals(1) by (simp add: st' persistStore_def)
      ultimately show ?thesis using res True d2 by simp
    next
      case False
      from run unfold eb Inr wd False
      have res: "res = Inr (filter (\<lambda>(chunkID, vector). vector \<noteq> []) (pe_vectors w2))"
        and st': "st' = st1"
        by auto
      have nr: "\<not> reset" and ns: "staleKeys cfg entry index = {}" using False d2 by auto
      obtain e where e: "entry = Some e"
        using nr by (cases entry) (auto simp: reset_def cacheReset_def)
      have w0: "working0 = e" using nr by (simp add: working0_def e)
      have "\<forall>k\<in>set (map fst (pe_vectors e)). k \<in> valid"
        using ns nr by (auto simp: staleKeys_def e reset_def valid_def)
      then have "pruneLoop (map fst (pe_vectors e)) valid (e, reset) = (e, reset)"
        by (rule pruneLoop_unchanged)
      then have w1e: "w1 = e" using pr unfolding pruned_def w0 by simp
      have "missing = []" using False d2 missing_ne by auto
      then have "st1 = st" "w2 = w1" using eb Inr wd by (simp_all add: embedBatches.simps)
      then show ?thesis
        using res False d2 st' e w1e vals(1) by simp
    qed
    show ?thesis
    proof (intro conjI allI impI)
      fix err assume "res = Inl err"
      then show "storeCache st' = storeCache st" "storeWrites st' = storeWrites st"
        using fin by simp_all
    next
      fix vectors assume rv: "res = Inr vectors"
      show "\<exists>rs answers w.
          embedRequests st' = embedRequests st @ rs \<and>
          concat rs = map chunk_text
                        (filter (reembedded cfg (embeddings store paperID)) (pi_chunks index)) \<and>
          (\<forall>r\<in>set rs. r \<noteq> [] \<and> length r \<le> EMBEDDING_BATCH_SIZE) \<and>
          list_all2 (\<lambda>r a. service r = Inr a \<and> length a = length r) rs answers \<and>
          map_of (pe_vectors w) =
            keptVectors cfg (embeddings store paperID) index
              ++ map_of (rev (zip (map chunk_id
                                     (filter (reembedded cfg (embeddings store paperID)) (pi_chunks index)))
                                  (concat answers))) \<and>
          map_of (pe_chunkHashes w) =
            keptHashes cfg (embeddings store paperID) index
              ++ map_of (rev (zip (map chunk_id
                                     (filter (reembedded cfg (embeddings store paperID)) (pi_chunks index)))
                                  (map (\<lambda>chunk. hashText (chunk_text chunk))
                                     (filter (reembedded cfg (embeddings store paperID)) (pi_chunks index))))) \<and>
          fst ` set (pe_vectors w) = chunk_id ` set (pi_chunks index) \<and>
          fst ` set (pe_chunkHashes w) = chunk_id ` set (pi_chunks index) \<and>
          pe_endpoint w = ec_endpoint cfg \<and> pe_model w = ec_model cfg \<and>
          vectors = filter (\<lambda>(chunkID, vector). vector \<noteq> []) (pe_vectors w) \<and>
          (if cacheReset cfg (embeddings store paperID) \<or>
              staleKeys cfg (embeddings store paperID) index \<noteq> {} \<or>
              (\<exists>c\<in>set (pi_chunks index). reembedded cfg (embeddings store paperID) c)
           then storeCache st' =
                  Some (store\<lparr>embeddings := (embeddings store)(paperID \<mapsto> w\<lparr>pe_updatedAt := now\<rparr>)\<rparr>) \<and>
                storeWrites st' =
                  storeWrites st @ [store\<lparr>embeddings := (embeddings store)(paperID \<mapsto> w\<lparr>pe_updatedAt := now\<rparr>)\<rparr>]
           else st' = st \<and> embeddings store paperID = Some w)"
        unfolding entry_def[symmetric] reset_def[symmetric]
      proof (intro exI[of _ rs] exI[of _ answers] exI[of _ w2] conjI)
        show "embedRequests st' = embedRequests st @ rs" using fin by simp
        show "concat rs = map chunk_text (filter (reembedded cfg entry) (pi_chunks index))"
          by (rule rsp(1))
        show "\<forall>r\<in>set rs. r \<noteq> [] \<and> length r \<le> EMBEDDING_BATCH_SIZE" by (rule rsp(2))
        show "list_all2 (\<lambda>r a. service r = Inr a \<and> length a = length r) rs answers"
          by (rule vals(2))
        show "map_of (pe_vectors w2) =
            keptVectors cfg entry index
              ++ map_of (rev (zip (map chunk_id (filter (reembedded cfg entry) (pi_chunks index)))
                                  (concat answers)))"
          by (rule mv)
        show "map_of (pe_chunkHashes w2) =
            keptHashes cfg entry index
              ++ map_of (rev (zip (map chunk_id (filter (reembedded cfg entry) (pi_chunks index)))
                                  (map (\<lambda>chunk. hashText (chunk_text chunk))
                                     (filter (reembedded cfg entry) (pi_chunks index)))))"
          by (rule mh)
        show "fst ` set (pe_vectors w2) = chunk_id ` set (pi_chunks index)" by (rule kv)
        show "fst ` set (pe_chunkHashes w2) = chunk_id ` set (pi_chunks index)" by (rule kh)
        show "pe_endpoint w2 = ec_endpoint cfg" "pe_model w2 = ec_model cfg" by (rule w2cfg)+
        show "vectors = filter (\<lambda>(chunkID, vector). vector \<noteq> []) (pe_vectors w2)"
          using fin rv by simp
        show "if reset \<or> staleKeys cfg entry index \<noteq> {} \<or>
                  (\<exists>c\<in>set (pi_chunks index). reembedded cfg entry c)
           then storeCache st' =
                  Some (store\<lparr>embeddings := (embeddings store)(paperID \<mapsto> w2\<lparr>pe_updatedAt := now\<rparr>)\<rparr>) \<and>
                storeWrites st' =
                  storeWrites st @ [store\<lparr>embeddings := (embeddings store)(paperID \<mapsto> w2\<lparr>pe_updatedAt := now\<rparr>)\<rparr>]
           else st' = st \<and> entry = Some w2"
          using fin by (rule conjunct1)
      qed
    qed
  qed
qed

lemma example_run:
  "fst (getOrCreateChunkEmbeddings exampleConfig exampleService (ascii ''t1'') (ascii ''p'') exampleIndex exampleState)
     = Inr [(ascii ''chunk-1'', [2]), (ascii ''chunk-2'', [3])]"
  "embedRequests (snd (getOrCreateChunkEmbeddings exampleConfig exampleService (ascii ''t1'') (ascii ''p'') exampleIndex exampleState))
     = [[ascii ''bbb'']]"
  "length (storeWrites (snd (getOrCreateChunkEmbeddings exampleConfig exampleService (ascii ''t1'') (ascii ''p'') exampleIndex exampleState))) = 1"
  by (simp_all add: getOrCreateChunkEmbeddings_def loadStore_def exampleState_def exampleEntry_def
      exampleIndex_def exampleConfig_def exampleService_def emptyStore_def Let_def
      missingChunks_def needsEmbedding_def embedBatches.simps requestEmbeddings_def
      EMBEDDING_BATCH_SIZE_def persistStore_def ascii_def AList.delete_eq)


lemma concat_singleton:
  "concat rs = [x] \<Longrightarrow> \<forall>r\<in>set rs. r \<noteq> [] \<Longrightarrow> rs = [[x]]"
proof (cases rs)
  case Nil
  assume "concat rs = [x]"
  with Nil show ?thesis by simp
next
  case (Cons r rs')
  assume c: "concat rs = [x]" and ne: "\<forall>r\<in>set rs. r \<noteq> []"
  have "r \<noteq> []" using ne Cons by simp
  then have "r = [x]" "concat rs' = []"
    using c Cons by (auto simp: append_eq_Cons_conv)
  moreover have "rs' = []"
  proof (cases rs')
    case Nil
    then show ?thesis .
  next
    case (Cons q qs)
    then have "q \<noteq> []" using ne \<open>rs = r # rs'\<close> by simp
    then show ?thesis using \<open>concat rs' = []\<close> Cons by simp
  qed
  ultimately show ?thesis using Cons by simp
qed

text \<open>
  The theorem on the example: the stale key \<open>chunk-9\<close> is dropped, only the second
  chunk is embedded, with the vector that the service returns for its text, the first
  chunk keeps its stored vector, and one payload is written.
\<close>

theorem getOrCreateChunkEmbeddings_cache_witness:
  "loadStore exampleState = (emptyStore\<lparr>embeddings := [ascii ''p'' \<mapsto> exampleEntry]\<rparr>, exampleState) \<and>
   fst ` set (pe_chunkHashes exampleEntry) \<subseteq> fst ` set (pe_vectors exampleEntry) \<and>
   fst (getOrCreateChunkEmbeddings exampleConfig exampleService (ascii ''t1'') (ascii ''p'') exampleIndex exampleState)
     = Inr [(ascii ''chunk-1'', [2]), (ascii ''chunk-2'', [3])] \<and>
   \<not> cacheReset exampleConfig (Some exampleEntry) \<and>
   staleKeys exampleConfig (Some exampleEntry) exampleIndex = {ascii ''chunk-9''} \<and>
   filter (reembedded exampleConfig (Some exampleEntry)) (pi_chunks exampleIndex) = [pi_chunks exampleIndex ! 1] \<and>
   embedRequests (snd (getOrCreateChunkEmbeddings exampleConfig exampleService (ascii ''t1'')
                               (ascii ''p'') exampleIndex exampleState)) = [[ascii ''bbb'']] \<and>
   (\<exists>w. storeWrites (snd (getOrCreateChunkEmbeddings exampleConfig exampleService (ascii ''t1'')
                               (ascii ''p'') exampleIndex exampleState))
           = [emptyStore\<lparr>embeddings := [ascii ''p'' \<mapsto> w\<lparr>pe_updatedAt := ascii ''t1''\<rparr>]\<rparr>] \<and>
        map_of (pe_vectors w) = [ascii ''chunk-1'' \<mapsto> [2], ascii ''chunk-2'' \<mapsto> [3]] \<and>
        map_of (pe_chunkHashes w)
          = [ascii ''chunk-1'' \<mapsto> hashText (ascii ''aa''), ascii ''chunk-2'' \<mapsto> hashText (ascii ''bbb'')] \<and>
        filter (\<lambda>(chunkID, vector). vector \<noteq> []) (pe_vectors w)
          = [(ascii ''chunk-1'', [2]), (ascii ''chunk-2'', [3])])"
proof -
  let ?X = "getOrCreateChunkEmbeddings exampleConfig exampleService (ascii ''t1'') (ascii ''p'')
              exampleIndex exampleState"
  let ?store = "emptyStore\<lparr>embeddings := [ascii ''p'' \<mapsto> exampleEntry]\<rparr>"
  have load: "loadStore exampleState = (?store, exampleState)"
    by (simp add: loadStore_def exampleState_def)
  have entry: "embeddings ?store (ascii ''p'') = Some exampleEntry" by simp
  have inv: "\<forall>e. embeddings ?store (ascii ''p'') = Some e \<longrightarrow>
               fst ` set (pe_chunkHashes e) \<subseteq> fst ` set (pe_vectors e)"
    by (simp add: exampleEntry_def)
  have nr: "\<not> cacheReset exampleConfig (Some exampleEntry)"
    by (simp add: cacheReset_def exampleConfig_def exampleEntry_def)
  have stale: "staleKeys exampleConfig (Some exampleEntry) exampleIndex = {ascii ''chunk-9''}"
    by (simp add: staleKeys_def nr) (auto simp: exampleEntry_def exampleIndex_def ascii_def)
  have r: "reembedded exampleConfig (Some exampleEntry) c \<longleftrightarrow>
      map_of (pe_chunkHashes exampleEntry) (chunk_id c) \<noteq> Some (hashText (chunk_text c)) \<or>
      map_of (pe_vectors exampleEntry) (chunk_id c) = None \<or>
      map_of (pe_vectors exampleEntry) (chunk_id c) = Some []" for c
    by (simp add: reembedded_def nr)
  have re: "filter (reembedded exampleConfig (Some exampleEntry)) (pi_chunks exampleIndex)
      = [pi_chunks exampleIndex ! 1]"
    by (simp add: r exampleIndex_def) (simp add: exampleEntry_def ascii_def)
  have ctext: "map chunk_text [pi_chunks exampleIndex ! 1] = [ascii ''bbb'']"
    and cid: "map chunk_id [pi_chunks exampleIndex ! 1] = [ascii ''chunk-2'']"
    and chash: "map (\<lambda>chunk. hashText (chunk_text chunk)) [pi_chunks exampleIndex ! 1]
                  = [hashText (ascii ''bbb'')]"
    by (simp_all add: exampleIndex_def)
  have kv: "keptVectors exampleConfig (Some exampleEntry) exampleIndex = [ascii ''chunk-1'' \<mapsto> [2]]"
    by (rule ext) (simp add: keptVectors_def nr, auto simp: exampleEntry_def exampleIndex_def ascii_def)
  have kh: "keptHashes exampleConfig (Some exampleEntry) exampleIndex
              = [ascii ''chunk-1'' \<mapsto> hashText (ascii ''aa'')]"
    by (rule ext) (simp add: keptHashes_def nr, auto simp: exampleEntry_def exampleIndex_def ascii_def)
  note inst = getOrCreateChunkEmbeddings_cache[OF load inv prod.collapse[symmetric, of ?X],
      THEN conjunct2, rule_format, OF example_run(1)]
  from inst obtain rs answers w where p:
    "embedRequests (snd ?X) = embedRequests exampleState @ rs"
    "concat rs = [ascii ''bbb'']"
    "\<forall>r\<in>set rs. r \<noteq> [] \<and> length r \<le> EMBEDDING_BATCH_SIZE"
    "list_all2 (\<lambda>r a. exampleService r = Inr a \<and> length a = length r) rs answers"
    "map_of (pe_vectors w) =
       [ascii ''chunk-1'' \<mapsto> [2]] ++ map_of (rev (zip [ascii ''chunk-2''] (concat answers)))"
    "map_of (pe_chunkHashes w) =
       [ascii ''chunk-1'' \<mapsto> hashText (ascii ''aa'')]
         ++ map_of (rev (zip [ascii ''chunk-2''] [hashText (ascii ''bbb'')]))"
    "[(ascii ''chunk-1'', [2]), (ascii ''chunk-2'', [3])]
       = filter (\<lambda>(chunkID, vector). vector \<noteq> []) (pe_vectors w)"
    "storeCache (snd ?X) =
       Some (?store\<lparr>embeddings := (embeddings ?store)(ascii ''p'' \<mapsto> w\<lparr>pe_updatedAt := ascii ''t1''\<rparr>)\<rparr>) \<and>
     storeWrites (snd ?X) =
       storeWrites exampleState
         @ [?store\<lparr>embeddings := (embeddings ?store)(ascii ''p'' \<mapsto> w\<lparr>pe_updatedAt := ascii ''t1''\<rparr>)\<rparr>]"
    unfolding entry re ctext cid chash kv kh using stale by (elim exE conjE) simp
  have rs: "rs = [[ascii ''bbb'']]" using p(2,3) by (intro concat_singleton) simp_all
  then have reqs: "embedRequests (snd ?X) = [[ascii ''bbb'']]"
    using p(1) by (simp add: exampleState_def)
  from p(4) obtain a where a: "answers = [a]" "exampleService [ascii ''bbb''] = Inr a"
    unfolding rs by (auto simp: list_all2_Cons1)
  have "a = [[3]]" using a(2) by (simp add: exampleService_def ascii_def)
  then have ca: "concat answers = [[3]]" using a(1) by simp
  have v: "map_of (pe_vectors w) = [ascii ''chunk-1'' \<mapsto> [2], ascii ''chunk-2'' \<mapsto> [3]]"
    unfolding p(5) ca by (rule ext) (simp add: map_add_def)
  have h: "map_of (pe_chunkHashes w)
          = [ascii ''chunk-1'' \<mapsto> hashText (ascii ''aa''), ascii ''chunk-2'' \<mapsto> hashText (ascii ''bbb'')]"
    unfolding p(6) by (rule ext) (simp add: map_add_def)
  have wr: "storeWrites (snd ?X)
      = [emptyStore\<lparr>embeddings := [ascii ''p'' \<mapsto> w\<lparr>pe_updatedAt := ascii ''t1''\<rparr>]\<rparr>]"
    using p(8) by (simp add: exampleState_def)
  have ex: "\<exists>w. storeWrites (snd ?X)
           = [emptyStore\<lparr>embeddings := [ascii ''p'' \<mapsto> w\<lparr>pe_updatedAt := ascii ''t1''\<rparr>]\<rparr>] \<and>
        map_of (pe_vectors w) = [ascii ''chunk-1'' \<mapsto> [2], ascii ''chunk-2'' \<mapsto> [3]] \<and>
        map_of (pe_chunkHashes w)
          = [ascii ''chunk-1'' \<mapsto> hashText (ascii ''aa''), ascii ''chunk-2'' \<mapsto> hashText (ascii ''bbb'')] \<and>
        filter (\<lambda>(chunkID, vector). vector \<noteq> []) (pe_vectors w)
          = [(ascii ''chunk-1'', [2]), (ascii ''chunk-2'', [3])]"
    using wr v h p(7)[symmetric] by (intro exI[of _ w] conjI)
  show ?thesis
    using load inv example_run(1) nr stale re reqs ex by (simp add: exampleEntry_def)
qed

section \<open>Proofs: hybrid retrieval\<close>

lemma limitLoop_prefix: "prefix (limitLoop chunks n m) chunks"
  by (induction chunks arbitrary: n) auto

lemma limitLoop_ne: "chunks \<noteq> [] \<Longrightarrow> limitLoop chunks n m \<noteq> []"
  by (cases chunks) auto

lemma sliceTo_prefix: "prefix (sliceTo xs k) xs"
  by (simp add: sliceTo_def take_is_prefix)

lemma sliceTo_ne: "xs \<noteq> [] \<Longrightarrow> 1 \<le> k \<Longrightarrow> sliceTo xs k \<noteq> []"
  by (cases xs) (auto simp: sliceTo_def)

lemma set_update_subset: "set (AList.update k v al) \<subseteq> insert (k, v) (set al)"
  by (induction al) auto

lemma lexicalScores_fold_pos:
  "\<forall>p\<in>set acc. 0 < snd p \<Longrightarrow>
   \<forall>p\<in>set (foldl (\<lambda>lexicalScores chunk.
              (let score = scoreChunk toLowerCase (chunk_text chunk) queryTokens
               in if 0 < score then AList.update (chunk_id chunk) score lexicalScores
                  else lexicalScores)) acc chunks). 0 < snd p"
proof (induction chunks arbitrary: acc)
  case Nil
  then show ?case by simp
next
  case (Cons c chunks)
  define acc' where "acc' = (if 0 < scoreChunk toLowerCase (chunk_text c) queryTokens
      then AList.update (chunk_id c) (scoreChunk toLowerCase (chunk_text c) queryTokens) acc else acc)"
  have "\<forall>p\<in>set acc'. 0 < snd p"
  proof (cases "0 < scoreChunk toLowerCase (chunk_text c) queryTokens")
    case True
    then have "set acc' \<subseteq> insert (chunk_id c, scoreChunk toLowerCase (chunk_text c) queryTokens) (set acc)"
      by (simp add: acc'_def set_update_subset)
    with True Cons.prems show ?thesis by auto
  next
    case False
    then have "acc' = acc" by (simp add: acc'_def)
    with Cons.prems show ?thesis by simp
  qed
  then have "\<forall>p\<in>set (foldl (\<lambda>lexicalScores chunk.
              (let score = scoreChunk toLowerCase (chunk_text chunk) queryTokens
               in if 0 < score then AList.update (chunk_id chunk) score lexicalScores
                  else lexicalScores)) acc' chunks). 0 < snd p"
    by (rule Cons.IH)
  then show ?case by (simp add: acc'_def Let_def)
qed

lemma lexicalScores_fold_keys:
  "fst ` set (foldl (\<lambda>lexicalScores chunk.
              (let score = scoreChunk toLowerCase (chunk_text chunk) queryTokens
               in if 0 < score then AList.update (chunk_id chunk) score lexicalScores
                  else lexicalScores)) acc chunks)
   = fst ` set acc \<union> chunk_id ` {c \<in> set chunks. 0 < scoreChunk toLowerCase (chunk_text c) queryTokens}"
proof (induction chunks arbitrary: acc)
  case Nil
  then show ?case by simp
next
  case (Cons c chunks)
  define acc' where "acc' = (if 0 < scoreChunk toLowerCase (chunk_text c) queryTokens
      then AList.update (chunk_id c) (scoreChunk toLowerCase (chunk_text c) queryTokens) acc else acc)"
  have k: "fst ` set acc' = fst ` set acc \<union>
      (if 0 < scoreChunk toLowerCase (chunk_text c) queryTokens then {chunk_id c} else {})"
    by (simp add: acc'_def dom_update)
  have s: "{x \<in> set (c # chunks). 0 < scoreChunk toLowerCase (chunk_text x) queryTokens}
      = (if 0 < scoreChunk toLowerCase (chunk_text c) queryTokens then {c} else {}) \<union>
        {x \<in> set chunks. 0 < scoreChunk toLowerCase (chunk_text x) queryTokens}"
    by auto
  have "fst ` set (foldl (\<lambda>lexicalScores chunk.
              (let score = scoreChunk toLowerCase (chunk_text chunk) queryTokens
               in if 0 < score then AList.update (chunk_id chunk) score lexicalScores
                  else lexicalScores)) acc (c # chunks))
      = fst ` set acc' \<union> chunk_id ` {c \<in> set chunks. 0 < scoreChunk toLowerCase (chunk_text c) queryTokens}"
    using Cons.IH[of acc'] by (simp add: acc'_def Let_def)
  then show ?case unfolding k s by (simp add: image_Un Un_assoc)
qed

lemma scoreOf_lexical_pos:
  assumes "c \<in> set chunks" "0 < scoreChunk toLowerCase (chunk_text c) queryTokens"
  shows "0 < scoreOf (lexicalScoresOf toLowerCase chunks queryTokens) (chunk_id c)"
proof -
  let ?m = "lexicalScoresOf toLowerCase chunks queryTokens"
  have "chunk_id c \<in> fst ` set ?m"
    unfolding lexicalScoresOf_def lexicalScores_fold_keys using assms by auto
  then obtain v where v: "map_of ?m (chunk_id c) = Some v"
    by (cases "map_of ?m (chunk_id c)") (auto simp: map_of_eq_None_iff)
  have "\<forall>p\<in>set ?m. 0 < snd p"
    unfolding lexicalScoresOf_def by (rule lexicalScores_fold_pos) simp
  moreover have "(chunk_id c, v) \<in> set ?m" using v by (rule map_of_SomeD)
  ultimately have "0 < v" by force
  with v show ?thesis by (simp add: scoreOf_def)
qed

lemma keywordChunks_ne:
  assumes "1 \<le> topK" "c \<in> set (pi_chunks index)"
    "0 < scoreChunk toLowerCase (chunk_text c) queryTokens"
  shows "keywordChunksOf index (lexicalScoresOf toLowerCase (pi_chunks index) queryTokens) topK \<noteq> []"
proof -
  let ?m = "lexicalScoresOf toLowerCase (pi_chunks index) queryTokens"
  have "c \<in> set (filter (\<lambda>chunk. 0 < scoreOf ?m (chunk_id chunk)) (pi_chunks index))"
    using assms scoreOf_lexical_pos[OF assms(2,3)] by simp
  then have "filter (\<lambda>chunk. 0 < scoreOf ?m (chunk_id chunk)) (pi_chunks index) \<noteq> []"
    by (metis empty_iff empty_set)
  moreover have "length (sort_key (\<lambda>chunk. - scoreOf ?m (chunk_id chunk))
               (filter (\<lambda>chunk. 0 < scoreOf ?m (chunk_id chunk)) (pi_chunks index)))
        = length (filter (\<lambda>chunk. 0 < scoreOf ?m (chunk_id chunk)) (pi_chunks index))"
    by (rule length_sort)
  ultimately have "sort_key (\<lambda>chunk. - scoreOf ?m (chunk_id chunk))
               (filter (\<lambda>chunk. 0 < scoreOf ?m (chunk_id chunk)) (pi_chunks index)) \<noteq> []"
    by (metis length_0_conv)
  then show ?thesis
    unfolding keywordChunksOf_def limitChunksByContext_def
    by (intro limitLoop_ne sliceTo_ne assms(1))
qed

lemma keywordChunks_none:
  assumes "\<forall>c\<in>set (pi_chunks index). \<not> 0 < scoreChunk toLowerCase (chunk_text c) queryTokens"
  shows "keywordChunksOf index (lexicalScoresOf toLowerCase (pi_chunks index) queryTokens) topK = []"
proof -
  have "{c \<in> set (pi_chunks index). 0 < scoreChunk toLowerCase (chunk_text c) queryTokens} = {}"
    using assms by blast
  then have "fst ` set (lexicalScoresOf toLowerCase (pi_chunks index) queryTokens) = {}"
    unfolding lexicalScoresOf_def lexicalScores_fold_keys by simp
  then have m: "lexicalScoresOf toLowerCase (pi_chunks index) queryTokens = []"
    by simp
  have f: "filter (\<lambda>chunk. 0 < scoreOf [] (chunk_id chunk)) (pi_chunks index) = []"
    by (simp add: scoreOf_def)
  have s: "sliceTo ([] :: textChunk list) topK = []"
    by (simp add: sliceTo_def)
  show ?thesis
    unfolding keywordChunksOf_def m f limitChunksByContext_def by (simp add: s)
qed

lemma selectSummaryChunks_prefix: "prefix (selectSummaryChunks index) (pi_chunks index)"
  by (simp add: selectSummaryChunks_def limitLoop_prefix)

lemma summary_slice_prefix: "prefix (sliceTo (selectSummaryChunks index) topK) (pi_chunks index)"
  using sliceTo_prefix selectSummaryChunks_prefix by (rule prefix_order.trans)

lemma summary_slice_ne:
  "1 \<le> topK \<Longrightarrow> pi_chunks index \<noteq> [] \<Longrightarrow> sliceTo (selectSummaryChunks index) topK \<noteq> []"
  by (simp add: sliceTo_ne selectSummaryChunks_def limitLoop_ne)

lemma scoreChunk_no_tokens: "scoreChunk toLowerCase t [] = 0"
  by (simp add: scoreChunk_def Let_def)

lemma keywordResult_props:
  assumes "keywordChunks = keywordChunksOf index (lexicalScoresOf toLowerCase (pi_chunks index) queryTokens) topK"
  shows "rr_retrievalMode (keywordResult index keywordChunks topK) = Keyword \<and>
     (1 \<le> topK \<and> (\<exists>c\<in>set (pi_chunks index). 0 < scoreChunk toLowerCase (chunk_text c) queryTokens)
        \<longrightarrow> rr_chunks (keywordResult index keywordChunks topK) \<noteq> []) \<and>
     ((\<forall>c\<in>set (pi_chunks index). \<not> 0 < scoreChunk toLowerCase (chunk_text c) queryTokens)
        \<longrightarrow> rr_chunks (keywordResult index keywordChunks topK) = sliceTo (selectSummaryChunks index) topK)"
proof (intro conjI impI)
  show "rr_retrievalMode (keywordResult index keywordChunks topK) = Keyword"
    by (simp add: keywordResult_def)
next
  assume "1 \<le> topK \<and> (\<exists>c\<in>set (pi_chunks index). 0 < scoreChunk toLowerCase (chunk_text c) queryTokens)"
  then obtain c where "1 \<le> topK" "c \<in> set (pi_chunks index)"
      "0 < scoreChunk toLowerCase (chunk_text c) queryTokens" by blast
  then have "keywordChunks \<noteq> []" unfolding assms by (rule keywordChunks_ne)
  then show "rr_chunks (keywordResult index keywordChunks topK) \<noteq> []"
    by (simp add: keywordResult_def)
next
  assume "\<forall>c\<in>set (pi_chunks index). \<not> 0 < scoreChunk toLowerCase (chunk_text c) queryTokens"
  then have "keywordChunks = []" unfolding assms by (rule keywordChunks_none)
  then show "rr_chunks (keywordResult index keywordChunks topK) = sliceTo (selectSummaryChunks index) topK"
    by (simp add: keywordResult_def)
qed

lemma hybridAttempt_fails:
  assumes "embeddingPathFails cfg service now paperID index query st"
    and "hybridAttempt cfg service now paperID index query topK queryTokens lexicalScores keywordChunks st
           = (Inr result, st')"
  shows "result = keywordResult index keywordChunks topK"
  using assms
  by (auto simp: embeddingPathFails_def hybridAttempt_def split: prod.splits sum.splits if_splits)

lemma requestEmbedding_fails:
  "ec_endpoint cfg = [] \<or> ec_model cfg = [] \<or> (\<exists>e. service [query] = Inl e) \<or>
   (\<exists>vs. service [query] = Inr vs \<and> length vs \<noteq> 1) \<Longrightarrow>
   \<exists>e st1. requestEmbedding cfg service query st = (Inl e, st1)"
  by (auto simp: requestEmbedding_def requestEmbeddings_def Let_def split: sum.splits)

lemma requestEmbedding_empty:
  "service [query] = Inr [[]] \<Longrightarrow>
   (\<exists>e st1. requestEmbedding cfg service query st = (Inl e, st1)) \<or>
   (\<exists>st1. requestEmbedding cfg service query st = (Inr [], st1))"
  by (auto simp: requestEmbedding_def requestEmbeddings_def Let_def split: sum.splits)

text \<open>
  Claim C3.  \<open>retrieveRelevantChunks\<close> always returns a result and never an error.
  When the embedding path fails (the query embedding or the chunk embeddings throw, the
  query vector is empty, or there are no chunk vectors), the result has mode
  \<open>keyword\<close>; for \<open>topK \<ge> 1\<close> its chunk list is non-empty as soon as one chunk has a
  positive keyword score for the query; and when no chunk has one, the chunks are the
  first \<open>topK\<close> of \<open>selectSummaryChunks\<close>, a prefix of the index's chunks in content
  order, non-empty for \<open>topK \<ge> 1\<close> and an index with chunks.  An unset embedding
  endpoint or model, a failing embedding request and an empty query vector are such
  failures.
\<close>

theorem retrieveRelevantChunks_fallback:
  "(\<exists>r st'. retrieveRelevantChunks toLowerCase hybridEnabled cfg service now paperID index query topK st
              = (Inr r, st') \<and>
      (embeddingPathFails cfg service now paperID index query st \<longrightarrow>
         rr_retrievalMode r = Keyword \<and>
         (1 \<le> topK \<and>
          (\<exists>c\<in>set (pi_chunks index).
              0 < scoreChunk toLowerCase (chunk_text c) (uniqueInOrder (tokenize toLowerCase query)))
            \<longrightarrow> rr_chunks r \<noteq> []) \<and>
         ((\<forall>c\<in>set (pi_chunks index).
              \<not> 0 < scoreChunk toLowerCase (chunk_text c) (uniqueInOrder (tokenize toLowerCase query)))
            \<longrightarrow> rr_chunks r = sliceTo (selectSummaryChunks index) topK \<and>
                prefix (rr_chunks r) (pi_chunks index) \<and>
                (1 \<le> topK \<and> pi_chunks index \<noteq> [] \<longrightarrow> rr_chunks r \<noteq> [])))) \<and>
   (ec_endpoint cfg = [] \<or> ec_model cfg = [] \<or> (\<exists>e. service [query] = Inl e) \<or>
    service [query] = Inr [[]]
      \<longrightarrow> embeddingPathFails cfg service now paperID index query st)"
proof (rule conjI)
  define queryTokens where "queryTokens = uniqueInOrder (tokenize toLowerCase query)"
  define lexicalScores where "lexicalScores = lexicalScoresOf toLowerCase (pi_chunks index) queryTokens"
  define keywordChunks where "keywordChunks = keywordChunksOf index lexicalScores topK"
  define kw where "kw = keywordResult index keywordChunks topK"
  define good where "good = (\<lambda>r :: retrievalResult. rr_retrievalMode r = Keyword \<and>
         (1 \<le> topK \<and>
          (\<exists>c\<in>set (pi_chunks index). 0 < scoreChunk toLowerCase (chunk_text c) queryTokens)
            \<longrightarrow> rr_chunks r \<noteq> []) \<and>
         ((\<forall>c\<in>set (pi_chunks index). \<not> 0 < scoreChunk toLowerCase (chunk_text c) queryTokens)
            \<longrightarrow> rr_chunks r = sliceTo (selectSummaryChunks index) topK \<and>
                prefix (rr_chunks r) (pi_chunks index) \<and>
                (1 \<le> topK \<and> pi_chunks index \<noteq> [] \<longrightarrow> rr_chunks r \<noteq> [])))"
  have kw_good: "good kw"
    using keywordResult_props[OF keywordChunks_def[unfolded lexicalScores_def]]
      summary_slice_prefix[of index topK] summary_slice_ne[of topK index]
    by (simp add: kw_def good_def)
  have plain_good: "queryTokens = [] \<Longrightarrow>
      good \<lparr>rr_chunks = sliceTo (selectSummaryChunks index) topK, rr_retrievalMode = Keyword\<rparr>"
    using summary_slice_prefix[of index topK] summary_slice_ne[of topK index]
    by (simp add: scoreChunk_no_tokens good_def)
  have "\<exists>r st'. retrieveRelevantChunks toLowerCase hybridEnabled cfg service now paperID index query topK st
              = (Inr r, st') \<and>
      (embeddingPathFails cfg service now paperID index query st \<longrightarrow> good r)"
  proof (cases "queryTokens = []")
    case True
    then have "retrieveRelevantChunks toLowerCase hybridEnabled cfg service now paperID index query topK st
        = (Inr \<lparr>rr_chunks = sliceTo (selectSummaryChunks index) topK, rr_retrievalMode = Keyword\<rparr>, st)"
      by (simp add: retrieveRelevantChunks_def queryTokens_def[symmetric])
    then show ?thesis using plain_good[OF True] by blast
  next
    case False
    note ne = this
    show ?thesis
    proof (cases hybridEnabled)
      case False
      then have "retrieveRelevantChunks toLowerCase hybridEnabled cfg service now paperID index query topK st
              = (Inr kw, st)"
        using ne
        by (simp add: retrieveRelevantChunks_def queryTokens_def[symmetric] Let_def
            lexicalScores_def[symmetric] keywordChunks_def[symmetric] kw_def[symmetric])
      then show ?thesis using kw_good by blast
    next
      case True
      obtain h st1 where h: "hybridAttempt cfg service now paperID index query topK queryTokens
                      lexicalScores keywordChunks st = (h, st1)"
        by (cases "hybridAttempt cfg service now paperID index query topK queryTokens
                      lexicalScores keywordChunks st")
      show ?thesis
      proof (cases h)
        case (Inl e)
        then have "retrieveRelevantChunks toLowerCase hybridEnabled cfg service now paperID index query topK st
              = (Inr kw, st1)"
          using ne True h
          by (simp add: retrieveRelevantChunks_def queryTokens_def[symmetric] Let_def
            lexicalScores_def[symmetric] keywordChunks_def[symmetric] kw_def[symmetric])
        then show ?thesis using kw_good by blast
      next
        case (Inr result)
        then have eq: "retrieveRelevantChunks toLowerCase hybridEnabled cfg service now paperID index query topK st
              = (Inr result, st1)"
          using ne True h
          by (simp add: retrieveRelevantChunks_def queryTokens_def[symmetric] Let_def
            lexicalScores_def[symmetric] keywordChunks_def[symmetric] kw_def[symmetric])
        have "embeddingPathFails cfg service now paperID index query st \<Longrightarrow> result = kw"
          unfolding kw_def by (rule hybridAttempt_fails[OF _ h[unfolded Inr]])
        then show ?thesis using eq kw_good by blast
      qed
    qed
  qed
  then show "\<exists>r st'. retrieveRelevantChunks toLowerCase hybridEnabled cfg service now paperID index query topK st
              = (Inr r, st') \<and>
      (embeddingPathFails cfg service now paperID index query st \<longrightarrow>
         rr_retrievalMode r = Keyword \<and>
         (1 \<le> topK \<and>
          (\<exists>c\<in>set (pi_chunks index).
              0 < scoreChunk toLowerCase (chunk_text c) (uniqueInOrder (tokenize toLowerCase query)))
            \<longrightarrow> rr_chunks r \<noteq> []) \<and>
         ((\<forall>c\<in>set (pi_chunks index).
              \<not> 0 < scoreChunk toLowerCase (chunk_text c) (uniqueInOrder (tokenize toLowerCase query)))
            \<longrightarrow> rr_chunks r = sliceTo (selectSummaryChunks index) topK \<and>
                prefix (rr_chunks r) (pi_chunks index) \<and>
                (1 \<le> topK \<and> pi_chunks index \<noteq> [] \<longrightarrow> rr_chunks r \<noteq> [])))"
    unfolding good_def queryTokens_def .
next
  show "ec_endpoint cfg = [] \<or> ec_model cfg = [] \<or> (\<exists>e. service [query] = Inl e) \<or>
    service [query] = Inr [[]]
      \<longrightarrow> embeddingPathFails cfg service now paperID index query st"
  proof
    assume a: "ec_endpoint cfg = [] \<or> ec_model cfg = [] \<or> (\<exists>e. service [query] = Inl e) \<or>
      service [query] = Inr [[]]"
    show "embeddingPathFails cfg service now paperID index query st"
    proof (cases "service [query] = Inr [[]]")
      case True
      from requestEmbedding_empty[of service query cfg st, OF True] show ?thesis
        by (auto simp: embeddingPathFails_def)
    next
      case False
      with a have "ec_endpoint cfg = [] \<or> ec_model cfg = [] \<or> (\<exists>e. service [query] = Inl e) \<or>
         (\<exists>vs. service [query] = Inr vs \<and> length vs \<noteq> 1)" by blast
      from requestEmbedding_fails[of cfg service query st, OF this] show ?thesis
        by (auto simp: embeddingPathFails_def)
    qed
  qed
qed

lemma example_tokens:
  "uniqueInOrder (tokenize asciiLowerCase (ascii ''AA?'')) = [ascii ''aa'']"
  "tokenize asciiLowerCase (ascii ''aa'') = [ascii ''aa'']"
  by (simp_all add: uniqueInOrder_def tokenize_def asciiLowerCase_def ascii_def tokenChar_def
      isWhitespace_def splitWhitespace.simps[of "_ # _"] splitWhitespace.simps[of "[]"])

lemma example_score: "scoreChunk asciiLowerCase (ascii ''aa'') [ascii ''aa''] = 1"
  by (simp add: scoreChunk_def example_tokens Let_def)

text \<open>
  The theorem with hybrid search enabled and no embedding endpoint configured, for the
  query \<open>AA?\<close> on the example index, whose first chunk has the text \<open>aa\<close>.
\<close>

theorem retrieveRelevantChunks_fallback_witness:
  "ec_endpoint (exampleConfig\<lparr>ec_endpoint := []\<rparr>) = [] \<and>
   embeddingPathFails (exampleConfig\<lparr>ec_endpoint := []\<rparr>) exampleService (ascii ''t1'') (ascii ''p'')
     exampleIndex (ascii ''AA?'') exampleState \<and>
   (1::int) \<le> 6 \<and>
   (\<exists>c\<in>set (pi_chunks exampleIndex).
       0 < scoreChunk asciiLowerCase (chunk_text c) (uniqueInOrder (tokenize asciiLowerCase (ascii ''AA?'')))) \<and>
   (\<exists>r st'. retrieveRelevantChunks asciiLowerCase True (exampleConfig\<lparr>ec_endpoint := []\<rparr>)
               exampleService (ascii ''t1'') (ascii ''p'') exampleIndex (ascii ''AA?'') 6 exampleState
             = (Inr r, st') \<and>
           rr_retrievalMode r = Keyword \<and> rr_chunks r \<noteq> [])"
proof -
  let ?cfg = "exampleConfig\<lparr>ec_endpoint := []\<rparr>"
  note inst = retrieveRelevantChunks_fallback[of asciiLowerCase True ?cfg exampleService "ascii ''t1''"
      "ascii ''p''" exampleIndex "ascii ''AA?''" 6 exampleState]
  have unset: "ec_endpoint ?cfg = []" by simp
  have fails: "embeddingPathFails ?cfg exampleService (ascii ''t1'') (ascii ''p'')
     exampleIndex (ascii ''AA?'') exampleState"
    using inst[THEN conjunct2] unset by blast
  have pos: "\<exists>c\<in>set (pi_chunks exampleIndex).
       0 < scoreChunk asciiLowerCase (chunk_text c) (uniqueInOrder (tokenize asciiLowerCase (ascii ''AA?'')))"
    by (simp add: exampleIndex_def example_tokens(1) example_score)
  from inst[THEN conjunct1] fails pos
  have "\<exists>r st'. retrieveRelevantChunks asciiLowerCase True ?cfg
               exampleService (ascii ''t1'') (ascii ''p'') exampleIndex (ascii ''AA?'') 6 exampleState
             = (Inr r, st') \<and>
           rr_retrievalMode r = Keyword \<and> rr_chunks r \<noteq> []"
    by (elim exE conjE) (intro exI conjI, assumption, simp_all)
  with unset fails pos show ?thesis by simp
qed

section \<open>Proofs: paper index manager\<close>

lemma ensure_cached:
  "cachedPdfIndex st paperID = Some cached \<Longrightarrow> rp_paperID resolved = paperID \<Longrightarrow>
   ensurePaperIndex resolved paperText now st = (Inr cached, st)"
  by (simp add: ensurePaperIndex_def cachedPdfIndex_def)

lemma ensure_reuse:
  assumes "cachedPdfIndex st (rp_paperID resolved) = None" "loadStore st = (store, st1)"
    "papers store (rp_paperID resolved) = Some ex" "indexUnchanged ex resolved paperText"
  shows "ensurePaperIndex resolved paperText now st
           = (Inr ex, st1\<lparr>indexCache := (indexCache st1)(rp_paperID resolved \<mapsto> ex)\<rparr>)"
  using assms by (simp add: ensurePaperIndex_def cachedPdfIndex_def indexUnchanged_def Let_def)

lemma ensure_rebuild:
  assumes "cachedPdfIndex st (rp_paperID resolved) = None" "loadStore st = (store, st1)"
    "\<forall>ex. papers store (rp_paperID resolved) = Some ex \<longrightarrow> \<not> indexUnchanged ex resolved paperText"
  shows "ensurePaperIndex resolved paperText now st =
     (case buildPaperIndex resolved (pt_source paperText) (normalizeText (pt_text paperText)) now of
        Inl e \<Rightarrow> (Inl e, st1)
      | Inr index \<Rightarrow>
          (Inr index,
           persistStore (store\<lparr>papers := (papers store)(rp_paperID resolved \<mapsto> index)\<rparr>)
             (st1\<lparr>indexCache := (indexCache st1)(rp_paperID resolved \<mapsto> index)\<rparr>)))"
  using assms
  by (cases "papers store (rp_paperID resolved)")
     (auto simp: ensurePaperIndex_def cachedPdfIndex_def indexUnchanged_def Let_def)

lemma loadStore_cache: "loadStore st = (store, st1) \<Longrightarrow>
    storeCache st1 = Some store \<and> storeWrites st1 = storeWrites st \<and> indexCache st1 = indexCache st \<and>
    loadStore st1 = (store, st1)"
  by (auto simp: loadStore_def Let_def split: option.splits)


lemma ensure_again:
  assumes cache: "indexCache st (rp_paperID resolved) = Some idx"
    and store: "storeCache st = Some store" "papers store (rp_paperID resolved) = Some idx"
    and same: "indexUnchanged idx resolved paperText"
  shows "\<exists>st'. ensurePaperIndex resolved paperText now st = (Inr idx, st') \<and>
           storeWrites st' = storeWrites st \<and> storeCache st' = storeCache st"
proof (cases "pi_source idx = ascii ''pdf-cache''")
  case True
  then have "cachedPdfIndex st (rp_paperID resolved) = Some idx"
    by (simp add: cachedPdfIndex_def cache)
  then have "ensurePaperIndex resolved paperText now st = (Inr idx, st)"
    by (rule ensure_cached) simp
  then show ?thesis by simp
next
  case False
  then have c: "cachedPdfIndex st (rp_paperID resolved) = None"
    by (simp add: cachedPdfIndex_def cache)
  have l: "loadStore st = (store, st)" by (simp add: loadStore_def store(1))
  show ?thesis
    unfolding ensure_reuse[OF c l store(2) same] by simp
qed

lemma buildPaperIndex_Inr:
  "buildPaperIndex resolved (pt_source paperText) (normalizeText (pt_text paperText)) now = Inr index \<Longrightarrow>
   indexUnchanged index resolved paperText \<and>
   pi_chunks index = chunkText (normalizeText (pt_text paperText)) \<and> pi_chunks index \<noteq> [] \<and>
   pi_updatedAt index = now"
  by (auto simp: buildPaperIndex_def indexUnchanged_def Let_def split: if_splits)

lemma buildPaperIndex_cases:
  "(chunkText normalizedText = [] \<longrightarrow> (\<exists>e. buildPaperIndex resolved source normalizedText now = Inl e)) \<and>
   (chunkText normalizedText \<noteq> [] \<longrightarrow> (\<exists>index. buildPaperIndex resolved source normalizedText now = Inr index))"
  by (simp add: buildPaperIndex_def Let_def)

text \<open>
  Claim C4, as amended.  When the in-memory cache holds an index of the paper whose source
  is \<open>pdf-cache\<close>, \<open>ensurePaperIndex\<close> returns it without comparing and without
  writing.  Otherwise the stored index is returned, with no write, when its hash, source
  and title are those of the current text; and when there is no stored index or one of the
  three differs, the index is built and persisted, overwriting the entry of the paper,
  provided the text yields a chunk (without a chunk the call fails and nothing is
  written).  A second call with the same text, source and title returns the index of the
  first call, with no further write.
\<close>

theorem ensurePaperIndex_rebuild_policy:
  assumes load: "loadStore st = (store, st1)"
  shows "(\<forall>cached. cachedPdfIndex st (rp_paperID resolved) = Some cached \<longrightarrow>
            ensurePaperIndex resolved paperText now st = (Inr cached, st)) \<and>
    (cachedPdfIndex st (rp_paperID resolved) = None \<longrightarrow>
       (if \<exists>ex. papers store (rp_paperID resolved) = Some ex \<and> indexUnchanged ex resolved paperText
        then fst (ensurePaperIndex resolved paperText now st) = Inr (the (papers store (rp_paperID resolved))) \<and>
             storeWrites (snd (ensurePaperIndex resolved paperText now st)) = storeWrites st \<and>
             storeCache (snd (ensurePaperIndex resolved paperText now st)) = Some store
        else if chunkText (normalizeText (pt_text paperText)) = []
        then (\<exists>e. fst (ensurePaperIndex resolved paperText now st) = Inl e) \<and>
             storeWrites (snd (ensurePaperIndex resolved paperText now st)) = storeWrites st \<and>
             storeCache (snd (ensurePaperIndex resolved paperText now st)) = Some store
        else (\<exists>index. fst (ensurePaperIndex resolved paperText now st) = Inr index \<and>
                indexUnchanged index resolved paperText \<and>
                pi_chunks index = chunkText (normalizeText (pt_text paperText)) \<and>
                storeWrites (snd (ensurePaperIndex resolved paperText now st))
                  = storeWrites st @ [store\<lparr>papers := (papers store)(rp_paperID resolved \<mapsto> index)\<rparr>] \<and>
                storeCache (snd (ensurePaperIndex resolved paperText now st))
                  = Some (store\<lparr>papers := (papers store)(rp_paperID resolved \<mapsto> index)\<rparr>)))) \<and>
    (\<forall>idx st'. ensurePaperIndex resolved paperText now st = (Inr idx, st') \<longrightarrow>
       (\<exists>st''. ensurePaperIndex resolved paperText now' st' = (Inr idx, st'') \<and>
              storeWrites st'' = storeWrites st' \<and> storeCache st'' = storeCache st'))"
proof (intro conjI allI impI)
  fix cached assume "cachedPdfIndex st (rp_paperID resolved) = Some cached"
  then show "ensurePaperIndex resolved paperText now st = (Inr cached, st)"
    by (rule ensure_cached) simp
next
  note lc = loadStore_cache[OF load]
  assume c: "cachedPdfIndex st (rp_paperID resolved) = None"
  show "if \<exists>ex. papers store (rp_paperID resolved) = Some ex \<and> indexUnchanged ex resolved paperText
        then fst (ensurePaperIndex resolved paperText now st) = Inr (the (papers store (rp_paperID resolved))) \<and>
             storeWrites (snd (ensurePaperIndex resolved paperText now st)) = storeWrites st \<and>
             storeCache (snd (ensurePaperIndex resolved paperText now st)) = Some store
        else if chunkText (normalizeText (pt_text paperText)) = []
        then (\<exists>e. fst (ensurePaperIndex resolved paperText now st) = Inl e) \<and>
             storeWrites (snd (ensurePaperIndex resolved paperText now st)) = storeWrites st \<and>
             storeCache (snd (ensurePaperIndex resolved paperText now st)) = Some store
        else (\<exists>index. fst (ensurePaperIndex resolved paperText now st) = Inr index \<and>
                indexUnchanged index resolved paperText \<and>
                pi_chunks index = chunkText (normalizeText (pt_text paperText)) \<and>
                storeWrites (snd (ensurePaperIndex resolved paperText now st))
                  = storeWrites st @ [store\<lparr>papers := (papers store)(rp_paperID resolved \<mapsto> index)\<rparr>] \<and>
                storeCache (snd (ensurePaperIndex resolved paperText now st))
                  = Some (store\<lparr>papers := (papers store)(rp_paperID resolved \<mapsto> index)\<rparr>))"
  proof (cases "\<exists>ex. papers store (rp_paperID resolved) = Some ex \<and> indexUnchanged ex resolved paperText")
    case True
    then obtain ex where ex: "papers store (rp_paperID resolved) = Some ex"
        "indexUnchanged ex resolved paperText" by blast
    show ?thesis
      using True lc by (simp add: ensure_reuse[OF c load ex] ex(1))
  next
    case False
    then have nu: "\<forall>ex. papers store (rp_paperID resolved) = Some ex \<longrightarrow>
        \<not> indexUnchanged ex resolved paperText" by blast
    note rb = ensure_rebuild[OF c load nu, of now]
    show ?thesis
    proof (cases "chunkText (normalizeText (pt_text paperText)) = []")
      case True
      then obtain e where "buildPaperIndex resolved (pt_source paperText) (normalizeText (pt_text paperText)) now = Inl e"
        using buildPaperIndex_cases by blast
      then show ?thesis using False True lc by (simp add: rb)
    next
      case ne: False
      then obtain index where b: "buildPaperIndex resolved (pt_source paperText) (normalizeText (pt_text paperText)) now = Inr index"
        using buildPaperIndex_cases by blast
      note bp = buildPaperIndex_Inr[OF b]
      have "fst (ensurePaperIndex resolved paperText now st) = Inr index \<and>
                indexUnchanged index resolved paperText \<and>
                pi_chunks index = chunkText (normalizeText (pt_text paperText)) \<and>
                storeWrites (snd (ensurePaperIndex resolved paperText now st))
                  = storeWrites st @ [store\<lparr>papers := (papers store)(rp_paperID resolved \<mapsto> index)\<rparr>] \<and>
                storeCache (snd (ensurePaperIndex resolved paperText now st))
                  = Some (store\<lparr>papers := (papers store)(rp_paperID resolved \<mapsto> index)\<rparr>)"
        using bp lc by (simp add: rb b persistStore_def)
      then show ?thesis using False ne by (simp only: if_False) blast
    qed
  qed
next
  fix idx st'
  assume run: "ensurePaperIndex resolved paperText now st = (Inr idx, st')"
  note lc = loadStore_cache[OF load]
  show "\<exists>st''. ensurePaperIndex resolved paperText now' st' = (Inr idx, st'') \<and>
              storeWrites st'' = storeWrites st' \<and> storeCache st'' = storeCache st'"
  proof (cases "cachedPdfIndex st (rp_paperID resolved)")
    case (Some cached)
    then have e: "\<And>t. ensurePaperIndex resolved paperText t st = (Inr cached, st)"
      by (rule ensure_cached) simp
    from run e[of now] have "idx = cached" "st' = st" by auto
    then show ?thesis using e[of now'] by simp
  next
    case None
    show ?thesis
    proof (cases "\<exists>ex. papers store (rp_paperID resolved) = Some ex \<and> indexUnchanged ex resolved paperText")
      case True
      then obtain ex where ex: "papers store (rp_paperID resolved) = Some ex"
        "indexUnchanged ex resolved paperText" by blast
      from run have r: "idx = ex" "st' = st1\<lparr>indexCache := (indexCache st1)(rp_paperID resolved \<mapsto> ex)\<rparr>"
        by (auto simp: ensure_reuse[OF None load ex])
      show ?thesis
        unfolding r
        by (rule ensure_again[where store = store]) (simp_all add: lc ex)
    next
      case False
      then have nu: "\<forall>ex. papers store (rp_paperID resolved) = Some ex \<longrightarrow>
        \<not> indexUnchanged ex resolved paperText" by blast
      note rb = ensure_rebuild[OF None load nu, of now]
      from run rb obtain index where
        b: "buildPaperIndex resolved (pt_source paperText) (normalizeText (pt_text paperText)) now = Inr index"
        by (cases "buildPaperIndex resolved (pt_source paperText) (normalizeText (pt_text paperText)) now") auto
      from run have r: "idx = index"
        "st' = persistStore (store\<lparr>papers := (papers store)(rp_paperID resolved \<mapsto> index)\<rparr>)
             (st1\<lparr>indexCache := (indexCache st1)(rp_paperID resolved \<mapsto> index)\<rparr>)"
        by (auto simp: rb b)
      show ?thesis
        unfolding r
        by (rule ensure_again[where store = "store\<lparr>papers := (papers store)(rp_paperID resolved \<mapsto> index)\<rparr>"])
           (simp_all add: persistStore_def buildPaperIndex_Inr[OF b])
    qed
  qed
qed

lemma example_text_normal: "normalizeText (ascii ''aa'') = ascii ''aa''"
  by (simp add: normalizeText_def ascii_def trim_def isWhitespace_def)

lemma example_chunks_ne: "chunkText (normalizeText (ascii ''aa'')) \<noteq> []"
  by (simp add: example_text_normal)
     (simp add: chunkText_def chunkLoop.simps[of _ _ _ 0] Let_def CHUNK_SIZE_def sliceStr_def
        ascii_def trim_def isWhitespace_def)

lemma example_load: "loadStore (initialState None)
    = (emptyStore, (initialState None)\<lparr>storeCache := Some emptyStore\<rparr>)"
  by (simp add: loadStore_def initialState_def)

lemma example_first:
  "ensurePaperIndex (examplePaper (ascii ''T'')) examplePdfText (ascii ''t0'') (initialState None)
     = (Inr exampleFirstIndex,
        persistStore (emptyStore\<lparr>papers := [ascii ''p'' \<mapsto> exampleFirstIndex]\<rparr>)
          ((initialState None)\<lparr>storeCache := Some emptyStore,
                                 indexCache := [ascii ''p'' \<mapsto> exampleFirstIndex]\<rparr>))"
proof -
  have c: "cachedPdfIndex (initialState None) (rp_paperID (examplePaper (ascii ''T''))) = None"
    by (simp add: cachedPdfIndex_def initialState_def)
  have n: "\<forall>ex. papers emptyStore (rp_paperID (examplePaper (ascii ''T''))) = Some ex \<longrightarrow>
      \<not> indexUnchanged ex (examplePaper (ascii ''T'')) examplePdfText"
    by (simp add: emptyStore_def)
  have b: "buildPaperIndex (examplePaper (ascii ''T'')) (pt_source examplePdfText)
      (normalizeText (pt_text examplePdfText)) (ascii ''t0'') = Inr exampleFirstIndex"
    using example_chunks_ne
    by (simp add: buildPaperIndex_def Let_def exampleFirstIndex_def examplePdfText_def examplePaper_def)
  show ?thesis
    unfolding ensure_rebuild[OF c example_load n] b
    by (simp add: examplePaper_def emptyStore_def initialState_def)
qed

text \<open>
  The claim as stated fails: after the index of the example paper was built from the PDF
  text cache under the title \<open>T\<close>, a call for the same paper with the title \<open>U\<close>
  returns the stored index, whose title differs, and writes nothing.
\<close>

theorem ensurePaperIndex_rebuild_counterexample:
  "pi_title (the (papers (the (storeCache exampleAfterFirst)) (ascii ''p'')))
     \<noteq> rp_title (examplePaper (ascii ''U'')) \<and>
   fst (ensurePaperIndex (examplePaper (ascii ''U'')) examplePdfText (ascii ''t1'') exampleAfterFirst)
     = Inr (the (papers (the (storeCache exampleAfterFirst)) (ascii ''p''))) \<and>
   storeWrites (snd (ensurePaperIndex (examplePaper (ascii ''U'')) examplePdfText (ascii ''t1'')
                       exampleAfterFirst))
     = storeWrites exampleAfterFirst"
proof -
  have st: "exampleAfterFirst = persistStore (emptyStore\<lparr>papers := [ascii ''p'' \<mapsto> exampleFirstIndex]\<rparr>)
          ((initialState None)\<lparr>storeCache := Some emptyStore,
                                 indexCache := [ascii ''p'' \<mapsto> exampleFirstIndex]\<rparr>)"
    by (simp add: exampleAfterFirst_def example_first)
  have stored: "the (papers (the (storeCache exampleAfterFirst)) (ascii ''p'')) = exampleFirstIndex"
    by (simp add: st persistStore_def)
  have c: "cachedPdfIndex exampleAfterFirst (ascii ''p'') = Some exampleFirstIndex"
    by (simp add: st persistStore_def cachedPdfIndex_def exampleFirstIndex_def)
  have run: "ensurePaperIndex (examplePaper (ascii ''U'')) examplePdfText (ascii ''t1'') exampleAfterFirst
      = (Inr exampleFirstIndex, exampleAfterFirst)"
    by (rule ensure_cached[OF c]) (simp add: examplePaper_def)
  show ?thesis
    by (simp add: run stored) (simp add: exampleFirstIndex_def examplePaper_def ascii_def)
qed

text \<open>
  The amended claim on the empty store, for the example paper read from its abstract: the
  first call builds and writes the index, the second returns it and writes nothing.
\<close>

theorem ensurePaperIndex_rebuild_policy_witness:
  "loadStore (initialState None) = (emptyStore, (initialState None)\<lparr>storeCache := Some emptyStore\<rparr>) \<and>
   cachedPdfIndex (initialState None) (rp_paperID (examplePaper (ascii ''T''))) = None \<and>
   \<not> (\<exists>ex. papers emptyStore (rp_paperID (examplePaper (ascii ''T''))) = Some ex \<and>
            indexUnchanged ex (examplePaper (ascii ''T'')) exampleAbstractText) \<and>
   chunkText (normalizeText (pt_text exampleAbstractText)) \<noteq> [] \<and>
   (\<exists>index. fst (ensurePaperIndex (examplePaper (ascii ''T'')) exampleAbstractText (ascii ''t0'')
                   (initialState None)) = Inr index \<and>
       storeWrites (snd (ensurePaperIndex (examplePaper (ascii ''T'')) exampleAbstractText (ascii ''t0'')
                           (initialState None)))
         = [emptyStore\<lparr>papers := [ascii ''p'' \<mapsto> index]\<rparr>] \<and>
       (\<exists>st''. ensurePaperIndex (examplePaper (ascii ''T'')) exampleAbstractText (ascii ''t1'')
                 (snd (ensurePaperIndex (examplePaper (ascii ''T'')) exampleAbstractText (ascii ''t0'')
                         (initialState None)))
               = (Inr index, st'') \<and>
              storeWrites st'' = [emptyStore\<lparr>papers := [ascii ''p'' \<mapsto> index]\<rparr>]))"
proof -
  let ?r = "examplePaper (ascii ''T'')"
  let ?X = "ensurePaperIndex ?r exampleAbstractText (ascii ''t0'') (initialState None)"
  note inst = ensurePaperIndex_rebuild_policy[OF example_load, of ?r exampleAbstractText "ascii ''t0''" "ascii ''t1''"]
  have c: "cachedPdfIndex (initialState None) (rp_paperID ?r) = None"
    by (simp add: cachedPdfIndex_def initialState_def)
  have n: "\<not> (\<exists>ex. papers emptyStore (rp_paperID ?r) = Some ex \<and>
            indexUnchanged ex ?r exampleAbstractText)"
    by (simp add: emptyStore_def)
  have ne: "chunkText (normalizeText (pt_text exampleAbstractText)) \<noteq> []"
    using example_chunks_ne by (simp add: exampleAbstractText_def)
  from inst[THEN conjunct2, THEN conjunct1] c n ne
  obtain index where i: "fst ?X = Inr index"
      "storeWrites (snd ?X) = storeWrites (initialState None) @ [emptyStore\<lparr>papers := (papers emptyStore)(rp_paperID ?r \<mapsto> index)\<rparr>]"
    by (simp only: if_False simp_thms) blast
  have w: "storeWrites (snd ?X) = [emptyStore\<lparr>papers := [ascii ''p'' \<mapsto> index]\<rparr>]"
    using i(2) by (simp add: initialState_def emptyStore_def examplePaper_def)
  have "?X = (Inr index, snd ?X)" using i(1) by (metis prod.collapse)
  with inst[THEN conjunct2, THEN conjunct2]
  obtain st'' where s: "ensurePaperIndex ?r exampleAbstractText (ascii ''t1'') (snd ?X) = (Inr index, st'')"
      "storeWrites st'' = storeWrites (snd ?X)"
    by blast
  show ?thesis
    using example_load c n ne i(1) w s by auto
qed

section \<open>Proofs: evidence enforcement\<close>

lemma enforceEvidence_appended:
  assumes "evidenceRequired" "chunks \<noteq> []" "\<not> hasEvidenceMarker (trim answer)"
  shows "enforceEvidence evidenceRequired answer chunks =
     EVIDENCE_DISCLAIMER @ [0x000A] @ trim answer @ [0x000A] @ [0x000A] @ EVIDENCE_CONTEXT_HEADER
       @ [0x000A] @ joinWith [0x000A] (map evidenceSnippet (enumerate 0 (take 3 chunks)))"
  using assms by (simp add: enforceEvidence_def Let_def)

lemma enforceEvidence_plain:
  assumes "\<not> evidenceRequired \<or> chunks = [] \<or> hasEvidenceMarker (trim answer)"
  shows "enforceEvidence evidenceRequired answer chunks = trim answer"
  using assms by (auto simp: enforceEvidence_def Let_def)


lemma snippets_nth:
  "i < min 3 (length chunks) \<Longrightarrow>
   map evidenceSnippet (enumerate 0 (take 3 chunks)) ! i
     = ascii ''[C'' @ ascii (decimal (i + 1)) @ ascii ''] '' @ clipText (chunk_text (chunks ! i)) 220"
  by (simp add: nth_enumerate_eq evidenceSnippet_def)

lemma enforceEvidence_answer:
  assumes "evidenceRequired" "chunks \<noteq> []" "\<not> hasEvidenceMarker (trim answer)"
  shows "\<exists>snippets.
          enforceEvidence evidenceRequired answer chunks =
            EVIDENCE_DISCLAIMER @ [0x000A] @ trim answer @ [0x000A] @ [0x000A]
              @ EVIDENCE_CONTEXT_HEADER @ [0x000A] @ joinWith [0x000A] snippets \<and>
          length snippets = min 3 (length chunks) \<and> 1 \<le> length snippets \<and>
          (\<forall>i<length snippets.
              snippets ! i = ascii ''[C'' @ ascii (decimal (i + 1)) @ ascii ''] ''
                               @ clipText (chunk_text (chunks ! i)) 220)"
proof (intro exI[of _ "map evidenceSnippet (enumerate 0 (take 3 chunks))"] conjI allI impI)
  have len: "length (map evidenceSnippet (enumerate 0 (take 3 chunks))) = min 3 (length chunks)"
    by (simp add: min.commute)
  have pos: "1 \<le> min 3 (length chunks)" using assms(2) by (cases chunks) auto
  show "enforceEvidence evidenceRequired answer chunks =
          EVIDENCE_DISCLAIMER @ [0x000A] @ trim answer @ [0x000A] @ [0x000A]
            @ EVIDENCE_CONTEXT_HEADER @ [0x000A]
            @ joinWith [0x000A] (map evidenceSnippet (enumerate 0 (take 3 chunks)))"
    using assms by (rule enforceEvidence_appended)
  show "length (map evidenceSnippet (enumerate 0 (take 3 chunks))) = min 3 (length chunks)"
    by (rule len)
  show "1 \<le> length (map evidenceSnippet (enumerate 0 (take 3 chunks)))"
    unfolding len by (rule pos)
  fix i assume "i < length (map evidenceSnippet (enumerate 0 (take 3 chunks)))"
  then have "i < min 3 (length chunks)" unfolding len .
  then show "map evidenceSnippet (enumerate 0 (take 3 chunks)) ! i
      = ascii ''[C'' @ ascii (decimal (i + 1)) @ ascii ''] '' @ clipText (chunk_text (chunks ! i)) 220"
    by (rule snippets_nth)
qed

lemma enforceEvidence_contains:
  assumes "evidenceRequired" "chunks \<noteq> []" "\<not> hasEvidenceMarker (trim answer)"
  shows "sublist (trim answer) (enforceEvidence evidenceRequired answer chunks)"
proof -
  have "enforceEvidence evidenceRequired answer chunks =
     (EVIDENCE_DISCLAIMER @ [0x000A]) @ trim answer @ ([0x000A] @ [0x000A] @ EVIDENCE_CONTEXT_HEADER
       @ [0x000A] @ joinWith [0x000A] (map evidenceSnippet (enumerate 0 (take 3 chunks))))"
    unfolding enforceEvidence_appended[OF assms] by simp
  then show ?thesis by (simp only: sublist_appendI)
qed

text \<open>
  Claim C6.  The answer that \<open>enforceEvidence\<close> receives is the result of
  \<open>requestLLM\<close>, which \<open>extractChatContent\<close> has trimmed: \<open>answer = trim raw\<close>.  When
  evidence is required, there are chunks and the answer has no marker \<open>[C<digits>]\<close>,
  \<open>enforceEvidence\<close> returns the disclaimer, a line break, the full answer, an empty
  line, the header and the snippets of the first chunks, at least one and at most three,
  labelled \<open>[C1]\<close>, \<open>[C2]\<close>, \<open>[C3]\<close> and clipped to 220 characters; the answer is
  contained in the result.  When the answer has a marker, evidence is not required or
  there is no chunk, the answer is returned unmodified.
\<close>

theorem enforceEvidence_spec:
  assumes "answer = trim raw"
  shows
  "(evidenceRequired \<and> chunks \<noteq> [] \<and> \<not> hasEvidenceMarker answer \<longrightarrow>
      (\<exists>snippets.
          enforceEvidence evidenceRequired answer chunks =
            EVIDENCE_DISCLAIMER @ [0x000A] @ answer @ [0x000A] @ [0x000A]
              @ EVIDENCE_CONTEXT_HEADER @ [0x000A] @ joinWith [0x000A] snippets \<and>
          length snippets = min 3 (length chunks) \<and> 1 \<le> length snippets \<and>
          (\<forall>i<length snippets.
              snippets ! i = ascii ''[C'' @ ascii (decimal (i + 1)) @ ascii ''] ''
                               @ clipText (chunk_text (chunks ! i)) 220)) \<and>
      sublist answer (enforceEvidence evidenceRequired answer chunks)) \<and>
   (\<not> evidenceRequired \<or> chunks = [] \<or> hasEvidenceMarker answer \<longrightarrow>
      enforceEvidence evidenceRequired answer chunks = answer)"
proof -
  have t: "trim answer = answer" unfolding assms by (rule trim_idem)
  show ?thesis
  proof (intro conjI impI)
    assume a: "evidenceRequired \<and> chunks \<noteq> [] \<and> \<not> hasEvidenceMarker answer"
    then have b: "evidenceRequired" "chunks \<noteq> []" "\<not> hasEvidenceMarker (trim answer)"
      unfolding t by simp_all
    show "\<exists>snippets.
          enforceEvidence evidenceRequired answer chunks =
            EVIDENCE_DISCLAIMER @ [0x000A] @ answer @ [0x000A] @ [0x000A]
              @ EVIDENCE_CONTEXT_HEADER @ [0x000A] @ joinWith [0x000A] snippets \<and>
          length snippets = min 3 (length chunks) \<and> 1 \<le> length snippets \<and>
          (\<forall>i<length snippets.
              snippets ! i = ascii ''[C'' @ ascii (decimal (i + 1)) @ ascii ''] ''
                               @ clipText (chunk_text (chunks ! i)) 220)"
      using enforceEvidence_answer[OF b] unfolding t .
    show "sublist answer (enforceEvidence evidenceRequired answer chunks)"
      using enforceEvidence_contains[OF b] unfolding t .
  next
    assume "\<not> evidenceRequired \<or> chunks = [] \<or> hasEvidenceMarker answer"
    then have "\<not> evidenceRequired \<or> chunks = [] \<or> hasEvidenceMarker (trim answer)"
      unfolding t .
    then show "enforceEvidence evidenceRequired answer chunks = answer"
      using enforceEvidence_plain[of evidenceRequired chunks answer] unfolding t by simp
  qed
qed

text \<open>
  The claim on the two chunks of the example index: the answer \<open>ok\<close>, trimmed from
  \<open>ok\<close> between spaces, gets the disclaimer and two snippets; the answer \<open>see [C12]\<close>
  is returned as it is.
\<close>

theorem enforceEvidence_spec_witness:
  "ascii ''ok'' = trim (ascii '' ok '') \<and>
   pi_chunks exampleIndex \<noteq> [] \<and> \<not> hasEvidenceMarker (ascii ''ok'')  \<and>
   enforceEvidence True (ascii ''ok'') (pi_chunks exampleIndex) =
     EVIDENCE_DISCLAIMER @ [0x000A] @ ascii ''ok'' @ [0x000A] @ [0x000A] @ EVIDENCE_CONTEXT_HEADER
       @ [0x000A] @ ascii ''[C1] aa'' @ [0x000A] @ ascii ''[C2] bbb'' \<and>
   ascii ''see [C12]'' = trim (ascii ''see [C12]'') \<and> hasEvidenceMarker (ascii ''see [C12]'') \<and>
   enforceEvidence True (ascii ''see [C12]'') (pi_chunks exampleIndex) = ascii ''see [C12]''"
proof -
  have t: "ascii ''ok'' = trim (ascii '' ok '')" "ascii ''see [C12]'' = trim (ascii ''see [C12]'')"
    by (simp_all add: trim_def ascii_def isWhitespace_def)
  have m: "\<not> hasEvidenceMarker (ascii ''ok'')" "hasEvidenceMarker (ascii ''see [C12]'')"
    by (simp_all add: ascii_def isDigit_def)
  have c: "pi_chunks exampleIndex \<noteq> []" "length (pi_chunks exampleIndex) = 2"
    by (simp_all add: exampleIndex_def)
  have d: "decimal (0 + 1) = ''1''" "decimal (1 + 1) = ''2''" by code_simp+
  from enforceEvidence_spec[OF t(1), of True "pi_chunks exampleIndex", THEN conjunct1] c(1) m(1)
  obtain snippets where s:
    "enforceEvidence True (ascii ''ok'') (pi_chunks exampleIndex) =
            EVIDENCE_DISCLAIMER @ [0x000A] @ ascii ''ok'' @ [0x000A] @ [0x000A]
              @ EVIDENCE_CONTEXT_HEADER @ [0x000A] @ joinWith [0x000A] snippets"
    "length snippets = 2"
    "\<forall>i<length snippets.
              snippets ! i = ascii ''[C'' @ ascii (decimal (i + 1)) @ ascii ''] ''
                               @ clipText (chunk_text (pi_chunks exampleIndex ! i)) 220"
    unfolding c(2) by auto
  have s0: "snippets ! 0 = ascii ''[C1] aa''"
    using s(3)[rule_format, of 0] s(2) unfolding d
    by (simp add: exampleIndex_def clipText_def ascii_def)
  have s1: "snippets ! 1 = ascii ''[C2] bbb''"
    using s(3)[rule_format, of 1] s(2) unfolding d
    by (simp add: exampleIndex_def clipText_def ascii_def)
  have "snippets = [snippets ! 0, snippets ! 1]"
    using s(2) by (cases snippets; cases "tl snippets") auto
  then have j: "joinWith [0x000A] snippets = ascii ''[C1] aa'' @ [0x000A] @ ascii ''[C2] bbb''"
    unfolding s0 s1 by simp
  have p: "enforceEvidence True (ascii ''see [C12]'') (pi_chunks exampleIndex) = ascii ''see [C12]''"
    using enforceEvidence_spec[OF t(2), of True "pi_chunks exampleIndex", THEN conjunct2]
      m(2) by blast
  show ?thesis
    using c(1) m t p s(1) j by simp
qed

section \<open>Proofs: conversation memory\<close>

lemma loadStore_current: "loadStore st = (currentStore st, snd (loadStore st))"
  by (simp add: currentStore_def)

lemma loadStore_snd:
  "storeCache (snd (loadStore st)) = Some (currentStore st) \<and>
   storeWrites (snd (loadStore st)) = storeWrites st"
  by (auto simp: loadStore_def currentStore_def Let_def split: option.splits)

lemma currentStore_persist [simp]: "currentStore (persistStore store st) = store"
  by (simp add: currentStore_def loadStore_def persistStore_def)

lemma currentStore_loaded [simp]: "currentStore (snd (loadStore st)) = currentStore st"
  by (auto simp: currentStore_def loadStore_def Let_def split: option.splits)

lemma refreshStart_unfold:
  "refreshStart paperID title st =
     (if refreshDue (currentStore st) paperID
      then Some \<lparr>mr_paperID = paperID, mr_title = title,
                  mr_transcript = transcriptOf (conversationOf (currentStore st) paperID),
                  mr_turnCount = length (conversationOf (currentStore st) paperID)\<rparr>
      else None,
      snd (loadStore st))"
  unfolding refreshStart_def
  by (subst loadStore_current)
     (auto simp: refreshDue_def conversationOf_def Let_def split: option.splits)

lemma refreshFinish_unfold:
  "refreshFinish response now request st =
     (Inr (),
      case response of
        Inl e \<Rightarrow> st
      | Inr summary \<Rightarrow>
          if trim summary = [] then st
          else persistStore
                 ((currentStore st)\<lparr>memories := (memories (currentStore st))(mr_paperID request \<mapsto>
                      \<lparr>mem_summary = trim summary, mem_updatedAt = now,
                       mem_turnCount = mr_turnCount request\<rparr>)\<rparr>)
                 (snd (loadStore st)))"
  unfolding refreshFinish_def refreshAttempt_def
  by (subst loadStore_current) (auto split: sum.splits)

lemma refresh_unfold:
  "refreshConversationMemoryIfNeeded llm now paperID title st =
     (if \<not> refreshDue (currentStore st) paperID then (Inr (), snd (loadStore st))
      else case llm title (transcriptOf (conversationOf (currentStore st) paperID)) of
             Inl e \<Rightarrow> (Inr (), snd (loadStore st))
           | Inr summary \<Rightarrow>
               if trim summary = [] then (Inr (), snd (loadStore st))
               else (Inr (),
                     persistStore
                       ((currentStore st)\<lparr>memories := (memories (currentStore st))(paperID \<mapsto>
                            \<lparr>mem_summary = trim summary, mem_updatedAt = now,
                             mem_turnCount = length (conversationOf (currentStore st) paperID)\<rparr>)\<rparr>)
                       (snd (loadStore st))))"
proof -
  have l: "snd (loadStore (snd (loadStore st))) = snd (loadStore st)"
    by (auto simp: loadStore_def Let_def split: option.splits)
  show ?thesis
    unfolding refreshConversationMemoryIfNeeded_def refreshStart_unfold
    by (simp add: refreshFinish_unfold l split: sum.splits)
qed

lemma append_store:
  "currentStore (appendConversation paperID messages st) =
     (currentStore st)\<lparr>conversations := (conversations (currentStore st))
        (paperID \<mapsto> sliceLast (conversationOf (currentStore st) paperID @ messages) MAX_STORED_MESSAGES)\<rparr>"
  unfolding appendConversation_def
  by (subst loadStore_current) (simp add: Let_def conversationOf_def)

lemma clear_store:
  "currentStore (clearConversation paperID st) =
     (currentStore st)\<lparr>conversations := (conversations (currentStore st))(paperID := None),
                         memories := (memories (currentStore st))(paperID := None)\<rparr>"
  unfolding clearConversation_def
  by (subst loadStore_current) simp

lemma length_sliceLast: "length (sliceLast xs n) = min n (length xs)"
  by (simp add: sliceLast_def)

lemma append_invariant:
  assumes "memoryInvariant (currentStore st)"
  shows "memoryInvariant (currentStore (appendConversation paperID messages st))"
proof -
  let ?s = "currentStore st"
  have len: "\<And>p. length (conversationOf ?s p) \<le> MAX_STORED_MESSAGES"
    and tc: "\<And>p m. memories ?s p = Some m \<Longrightarrow> mem_turnCount m \<le> length (conversationOf ?s p)"
    using assms by (auto simp: memoryInvariant_def)
  have conv: "conversationOf (currentStore (appendConversation paperID messages st)) p =
      (if p = paperID then sliceLast (conversationOf ?s paperID @ messages) MAX_STORED_MESSAGES
       else conversationOf ?s p)" for p
    by (simp add: append_store conversationOf_def)
  have mem: "memories (currentStore (appendConversation paperID messages st)) = memories ?s"
    by (simp add: append_store)
  have grow: "length (conversationOf ?s paperID)
      \<le> length (sliceLast (conversationOf ?s paperID @ messages) MAX_STORED_MESSAGES)"
    using len[of paperID] by (simp add: length_sliceLast)
  show ?thesis
    unfolding memoryInvariant_def mem
  proof (intro conjI allI impI)
    fix p show "length (conversationOf (currentStore (appendConversation paperID messages st)) p)
        \<le> MAX_STORED_MESSAGES"
      using len[of p] by (simp add: conv length_sliceLast)
  next
    fix p m assume "memories ?s p = Some m"
    then have "mem_turnCount m \<le> length (conversationOf ?s p)" by (rule tc)
    then show "mem_turnCount m \<le> length (conversationOf (currentStore (appendConversation paperID messages st)) p)"
      using grow by (auto simp: conv)
  qed
qed

lemma clear_invariant:
  assumes "memoryInvariant (currentStore st)"
  shows "memoryInvariant (currentStore (clearConversation paperID st))"
  using assms
  by (auto simp: memoryInvariant_def clear_store conversationOf_def)

lemma append_length:
  assumes "memoryInvariant (currentStore st)"
  shows "length (conversationOf (currentStore st) p)
           \<le> length (conversationOf (currentStore (appendConversation paperID messages st)) p)"
proof -
  have "length (conversationOf (currentStore st) paperID) \<le> MAX_STORED_MESSAGES"
    using assms by (simp add: memoryInvariant_def)
  then show ?thesis
    by (simp add: append_store conversationOf_def length_sliceLast)
qed

lemma refreshFinish_store:
  "currentStore (snd (refreshFinish response now request st)) =
     (case response of
        Inl e \<Rightarrow> currentStore st
      | Inr summary \<Rightarrow>
          if trim summary = [] then currentStore st
          else (currentStore st)\<lparr>memories := (memories (currentStore st))(mr_paperID request \<mapsto>
                  \<lparr>mem_summary = trim summary, mem_updatedAt = now,
                   mem_turnCount = mr_turnCount request\<rparr>)\<rparr>)"
  by (simp add: refreshFinish_unfold split: sum.splits)

lemma finish_invariant:
  assumes "memoryInvariant (currentStore st)"
    and "mr_turnCount request \<le> length (conversationOf (currentStore st) (mr_paperID request))"
  shows "memoryInvariant (currentStore (snd (refreshFinish response now request st)))"
  using assms
  by (auto simp: refreshFinish_store memoryInvariant_def conversationOf_def split: sum.splits)

lemma finish_conversation:
  "conversationOf (currentStore (snd (refreshFinish response now request st))) p
     = conversationOf (currentStore st) p"
  by (simp add: refreshFinish_store conversationOf_def split: sum.splits)

lemma apply_invariant:
  assumes inv: "runInvariant run" and safe: "safeOperation (snd run) operation"
  shows "runInvariant (applyOperation run operation)"
proof -
  obtain st pending where run: "run = (st, pending)" by (cases run)
  have mi: "memoryInvariant (currentStore st)"
    and pe: "\<And>r. r \<in> set pending \<Longrightarrow>
               mr_turnCount r \<le> length (conversationOf (currentStore st) (mr_paperID r))"
    using inv by (auto simp: run runInvariant_def)
  show ?thesis
  proof (cases operation)
    case (Append paperID messages)
    have "memoryInvariant (currentStore (appendConversation paperID messages st))"
      using mi by (rule append_invariant)
    moreover have "mr_turnCount r
        \<le> length (conversationOf (currentStore (appendConversation paperID messages st)) (mr_paperID r))"
      if "r \<in> set pending" for r
      using pe[OF that] append_length[OF mi, of "mr_paperID r" paperID messages] by linarith
    ultimately show ?thesis by (simp add: run Append runInvariant_def)
  next
    case (Clear paperID)
    have "memoryInvariant (currentStore (clearConversation paperID st))"
      using mi by (rule clear_invariant)
    moreover have "mr_turnCount r
        \<le> length (conversationOf (currentStore (clearConversation paperID st)) (mr_paperID r))"
      if "r \<in> set pending" for r
    proof -
      have "mr_paperID r \<noteq> paperID" using safe that by (auto simp: run Clear)
      then show ?thesis using pe[OF that] by (simp add: clear_store conversationOf_def)
    qed
    ultimately show ?thesis by (simp add: run Clear runInvariant_def)
  next
    case (RefreshStart paperID title)
    show ?thesis
      using mi pe by (auto simp: run RefreshStart runInvariant_def refreshStart_unfold)
  next
    case (RefreshFinish n response now)
    show ?thesis
    proof (cases "n < length pending")
      case True
      then have r: "pending ! n \<in> set pending" by simp
      have "memoryInvariant (currentStore (snd (refreshFinish response now (pending ! n) st)))"
        using mi pe[OF r] by (rule finish_invariant)
      moreover have "mr_turnCount q
          \<le> length (conversationOf (currentStore (snd (refreshFinish response now (pending ! n) st)))
                      (mr_paperID q))"
        if "q \<in> set (take n pending @ drop (Suc n) pending)" for q
      proof -
        have "q \<in> set pending" using that by (auto dest: in_set_takeD in_set_dropD)
        then show ?thesis using pe by (simp add: finish_conversation)
      qed
      ultimately show ?thesis using True by (simp add: run RefreshFinish runInvariant_def)
    next
      case False
      then show ?thesis using inv by (simp add: run RefreshFinish)
    qed
  qed
qed

text \<open>
  Along a run in which no chat is cleared while a refresh of it awaits the chat request,
  every \<open>turnCount\<close> stays at most the length of its conversation.
\<close>

lemma run_invariant:
  "runInvariant run \<Longrightarrow> safeRun run ops \<Longrightarrow> runInvariant (foldl applyOperation run ops)"
proof (induction ops arbitrary: run)
  case Nil
  then show ?case by simp
next
  case (Cons operation ops)
  have "runInvariant (applyOperation run operation)"
    using Cons.prems by (intro apply_invariant) simp_all
  then show ?case using Cons.IH Cons.prems by simp
qed

lemma initial_invariant: "memoryInvariant (currentStore (initialState file)) \<longleftrightarrow>
    memoryInvariant (case file of None \<Rightarrow> emptyStore | Some parsed \<Rightarrow> parsed)"
  by (simp add: currentStore_def loadStore_def initialState_def Let_def)

lemma empty_invariant: "memoryInvariant emptyStore"
  by (simp add: memoryInvariant_def emptyStore_def conversationOf_def)

lemma safe_runs_invariant:
  assumes "safeRun (initialState None, []) ops"
  shows "memoryInvariant (currentStore (fst (runOperations (initialState None) ops)))"
proof -
  have "runInvariant (initialState None, [])"
    by (simp add: runInvariant_def initial_invariant empty_invariant)
  then have "runInvariant (foldl applyOperation (initialState None, []) ops)"
    using assms by (rule run_invariant)
  then show ?thesis by (simp add: runOperations_def runInvariant_def split: prod.splits)
qed

text \<open>
  The refresh when nothing runs in between: \<open>refreshConversationMemoryIfNeeded\<close> never
  returns an error.  It changes the memory of the paper or writes the store only when the
  conversation has at least 4 messages and there is no memory yet or at least 6 messages
  are new since the memory's \<open>turnCount\<close>.  When that holds and the chat request returns
  a summary that is not blank, the memory becomes the trimmed summary with \<open>turnCount\<close>
  the length of the conversation, and the store is written once.  When the chat request
  fails, the store and the written payloads are unchanged.
\<close>

lemma refreshConversationMemory_policy:
  "fst (refreshConversationMemoryIfNeeded llm now paperID title st) = Inr () \<and>
   (memories (currentStore (snd (refreshConversationMemoryIfNeeded llm now paperID title st))) paperID
      \<noteq> memories (currentStore st) paperID \<or>
    storeWrites (snd (refreshConversationMemoryIfNeeded llm now paperID title st)) \<noteq> storeWrites st
      \<longrightarrow> refreshDue (currentStore st) paperID) \<and>
   (\<forall>summary. refreshDue (currentStore st) paperID \<and>
       llm title (transcriptOf (conversationOf (currentStore st) paperID)) = Inr summary \<and>
       trim summary \<noteq> [] \<longrightarrow>
         memories (currentStore (snd (refreshConversationMemoryIfNeeded llm now paperID title st))) paperID
           = Some \<lparr>mem_summary = trim summary, mem_updatedAt = now,
                    mem_turnCount = length (conversationOf (currentStore st) paperID)\<rparr> \<and>
         conversationOf (currentStore (snd (refreshConversationMemoryIfNeeded llm now paperID title st))) paperID
           = conversationOf (currentStore st) paperID \<and>
         storeWrites (snd (refreshConversationMemoryIfNeeded llm now paperID title st))
           = storeWrites st @ [currentStore (snd (refreshConversationMemoryIfNeeded llm now paperID title st))]) \<and>
   (\<forall>e. llm title (transcriptOf (conversationOf (currentStore st) paperID)) = Inl e \<longrightarrow>
         currentStore (snd (refreshConversationMemoryIfNeeded llm now paperID title st)) = currentStore st \<and>
         storeWrites (snd (refreshConversationMemoryIfNeeded llm now paperID title st)) = storeWrites st)"
proof (intro conjI allI impI)
  show "fst (refreshConversationMemoryIfNeeded llm now paperID title st) = Inr ()"
    by (simp add: refresh_unfold split: sum.splits)
next
  assume "memories (currentStore (snd (refreshConversationMemoryIfNeeded llm now paperID title st))) paperID
      \<noteq> memories (currentStore st) paperID \<or>
    storeWrites (snd (refreshConversationMemoryIfNeeded llm now paperID title st)) \<noteq> storeWrites st"
  then show "refreshDue (currentStore st) paperID"
    by (rule contrapos_pp) (simp add: refresh_unfold loadStore_snd)
next
  fix summary
  assume a: "refreshDue (currentStore st) paperID \<and>
       llm title (transcriptOf (conversationOf (currentStore st) paperID)) = Inr summary \<and>
       trim summary \<noteq> []"
  then show "memories (currentStore (snd (refreshConversationMemoryIfNeeded llm now paperID title st))) paperID
           = Some \<lparr>mem_summary = trim summary, mem_updatedAt = now,
                    mem_turnCount = length (conversationOf (currentStore st) paperID)\<rparr>"
    by (simp add: refresh_unfold)
  from a show "conversationOf (currentStore (snd (refreshConversationMemoryIfNeeded llm now paperID title st))) paperID
           = conversationOf (currentStore st) paperID"
    by (simp add: refresh_unfold conversationOf_def)
  from a show "storeWrites (snd (refreshConversationMemoryIfNeeded llm now paperID title st))
           = storeWrites st @ [currentStore (snd (refreshConversationMemoryIfNeeded llm now paperID title st))]"
    by (simp add: refresh_unfold) (simp add: persistStore_def loadStore_snd)
next
  fix e assume a: "llm title (transcriptOf (conversationOf (currentStore st) paperID)) = Inl e"
  then show "currentStore (snd (refreshConversationMemoryIfNeeded llm now paperID title st)) = currentStore st"
    by (simp add: refresh_unfold)
  from a show "storeWrites (snd (refreshConversationMemoryIfNeeded llm now paperID title st)) = storeWrites st"
    by (simp add: refresh_unfold loadStore_snd)
qed

lemma exampleChat_store:
  "conversationOf (currentStore exampleChat) (ascii ''p'') = exampleTurn @ exampleTurn"
  "memories (currentStore exampleChat) (ascii ''p'') = None"
  by (simp_all add: exampleChat_def runOperations_def append_store conversationOf_def
      sliceLast_def MAX_STORED_MESSAGES_def exampleTurn_def emptyStore_def
      currentStore_def loadStore_def initialState_def Let_def persistStore_def appendConversation_def)

lemma exampleChat_due: "refreshDue (currentStore exampleChat) (ascii ''p'')"
  by (simp add: refreshDue_def exampleChat_store) (simp add: exampleTurn_def)

text \<open>
  Claim C7 fails on the code.  Two question and answer pairs are appended, the refresh
  starts and reads a conversation of 4 messages, the chat is cleared while the refresh
  awaits the chat request, and the request returns a summary: the memory of the cleared
  chat is stored with \<open>turnCount = 4\<close> while the conversation is empty.
\<close>

theorem refreshConversationMemory_race:
  "memories (currentStore (fst (runOperations (initialState None) exampleRace))) (ascii ''p'')
     = Some \<lparr>mem_summary = ascii ''summary'', mem_updatedAt = ascii ''t1'', mem_turnCount = 4\<rparr> \<and>
   conversationOf (currentStore (fst (runOperations (initialState None) exampleRace))) (ascii ''p'') = [] \<and>
   snd (runOperations (initialState None) exampleRace) = []"
proof -
  define request where "request = \<lparr>mr_paperID = ascii ''p'', mr_title = ascii ''T'',
      mr_transcript = transcriptOf (exampleTurn @ exampleTurn), mr_turnCount = 4\<rparr>"
  have two: "foldl applyOperation (initialState None, [])
        [Append (ascii ''p'') exampleTurn, Append (ascii ''p'') exampleTurn] = (exampleChat, [])"
    by (simp add: exampleChat_def runOperations_def)
  have start: "applyOperation (exampleChat, []) (RefreshStart (ascii ''p'') (ascii ''T''))
      = (snd (loadStore exampleChat), [request])"
    using exampleChat_due
    by (simp add: refreshStart_unfold exampleChat_store request_def) (simp add: exampleTurn_def)
  define cleared where "cleared = clearConversation (ascii ''p'') (snd (loadStore exampleChat))"
  have cs: "conversationOf (currentStore cleared) (ascii ''p'') = []"
    "memories (currentStore cleared) (ascii ''p'') = None"
    by (simp_all add: cleared_def clear_store conversationOf_def)
  have t: "trim (ascii '' summary '') = ascii ''summary''"
    by (simp add: trim_def ascii_def isWhitespace_def)
  define final where "final = snd (refreshFinish (Inr (ascii '' summary '')) (ascii ''t1'') request cleared)"
  have run: "runOperations (initialState None) exampleRace = (final, [])"
    unfolding runOperations_def exampleRace_def
    using two start by (simp add: cleared_def final_def)
  have fs: "currentStore final =
      (currentStore cleared)\<lparr>memories := (memories (currentStore cleared))(ascii ''p'' \<mapsto>
          \<lparr>mem_summary = ascii ''summary'', mem_updatedAt = ascii ''t1'', mem_turnCount = 4\<rparr>)\<rparr>"
    unfolding final_def refreshFinish_store by (simp add: t request_def) (simp add: ascii_def)
  show ?thesis
    unfolding run using cs by (simp add: fs conversationOf_def)
qed

text \<open>The run of the example is not safe: it clears the chat while a request is pending.\<close>

lemma exampleRace_unsafe: "\<not> safeRun (initialState None, []) exampleRace"
proof -
  have two: "applyOperation (applyOperation (initialState None, []) (Append (ascii ''p'') exampleTurn))
        (Append (ascii ''p'') exampleTurn) = (exampleChat, [])"
    by (simp add: exampleChat_def runOperations_def)
  have start: "snd (applyOperation (exampleChat, []) (RefreshStart (ascii ''p'') (ascii ''T'')))
      = [\<lparr>mr_paperID = ascii ''p'', mr_title = ascii ''T'',
          mr_transcript = transcriptOf (conversationOf (currentStore exampleChat) (ascii ''p'')),
          mr_turnCount = length (conversationOf (currentStore exampleChat) (ascii ''p''))\<rparr>]"
    using exampleChat_due by (simp add: refreshStart_unfold)
  show ?thesis
    unfolding exampleRace_def by (simp add: two del: applyOperation.simps) (simp add: start del: applyOperation.simps)
qed

section \<open>Proofs: progress reports of the paper summary\<close>

lemma reportedUpTo_mono: "reportedUpTo b reports \<Longrightarrow> b \<le> b' \<Longrightarrow> reportedUpTo b' reports"
  by (auto simp: reportedUpTo_def)

lemma reportedUpTo_report:
  "reportedUpTo b reports \<Longrightarrow> b \<le> max 0 (min 100 percent) \<Longrightarrow>
   reportedUpTo (max 0 (min 100 percent)) (reportSummaryProgress handler percent stage reports)"
  by (auto simp: reportedUpTo_def reportSummaryProgress_def sorted_append)

lemma reportedUpTo_const:
  "reportedUpTo b reports \<Longrightarrow> b \<le> percent \<Longrightarrow> 0 \<le> percent \<Longrightarrow> percent \<le> 100 \<Longrightarrow>
   reportedUpTo percent (reportSummaryProgress handler percent stage reports)"
  using reportedUpTo_report[of b reports percent handler stage] by (simp add: max_def min_def)

lemma draftSections_reports:
  "reportedUpTo (max 0 (min 100 (24 + (72 * real step) / real totalSteps))) reports \<Longrightarrow> 0 < totalSteps \<Longrightarrow>
   (case draftSections sectionRequest handler totalSteps contextBySectionID sections step sectionDrafts reports of
      (step', sectionDrafts', reports') \<Rightarrow>
        step' = step + length sections \<and>
        reportedUpTo (max 0 (min 100 (24 + (72 * real step') / real totalSteps))) reports')"
proof (induction sections arbitrary: step sectionDrafts reports)
  case Nil
  then show ?case by simp
next
  case (Cons s sections)
  have le: "max 0 (min 100 (24 + (72 * real step) / real totalSteps))
              \<le> max 0 (min 100 (24 + (72 * real (step + 1)) / real totalSteps))"
    using Cons.prems(2) by (auto simp: max_def min_def divide_le_cancel field_simps)
  have r: "reportedUpTo (max 0 (min 100 (24 + (72 * real (step + 1)) / real totalSteps)))
             (reportSummaryProgress handler (24 + (72 * real (step + 1)) / real totalSteps)
                (STAGE_SECTION @ sps_title s) reports)"
    using Cons.prems(1) le by (rule reportedUpTo_report)
  show ?case
    using Cons.IH[OF r Cons.prems(2)] by (simp add: Let_def split: prod.splits)
qed

lemma composeSectionedSummary_nonblank:
  "trim (trim (composeSectionedSummary index sections sectionDrafts)) \<noteq> []"
proof -
  have "0x0054 \<in> set (composeSectionedSummary index sections sectionDrafts)"
    by (simp add: composeSectionedSummary_def Let_def ascii_def)
  moreover have "\<not> isWhitespace (0x0054 :: code_unit)" by (simp add: isWhitespace_def)
  ultimately have "trim (composeSectionedSummary index sections sectionDrafts) \<noteq> []"
    unfolding trim_eq_Nil_iff by blast
  then show ?thesis by (simp add: trim_idem)
qed

lemma pipeline_reports:
  assumes "reportedUpTo 8 reports"
  shows "case runBookmarkContextSummaryPipeline env handler attachmentID index reports of
           (Inl e, reports') \<Rightarrow> reportedUpTo 12 reports'
         | (Inr result, reports') \<Rightarrow> reportedUpTo 96 reports' \<and> trim (sr_answer result) \<noteq> []"
proof -
  have r1: "reportedUpTo 12 (reportSummaryProgress handler 12 STAGE_CONTEXTS reports)"
    using assms by (rule reportedUpTo_const) simp_all
  have r0: "reportedUpTo 12 reports" using assms by (rule reportedUpTo_mono) simp
  show ?thesis
  proof (cases "attachmentID = 0")
    case True
    then show ?thesis using r0 by (simp add: runBookmarkContextSummaryPipeline_def)
  next
    case nz: False
    show ?thesis
    proof (cases "se_contexts env")
      case (Inl e)
      then show ?thesis using nz r1 by (simp add: runBookmarkContextSummaryPipeline_def Let_def)
    next
      case (Inr contexts)
      obtain sections contextBySectionID
        where pr: "prepareBookmarkContextSummaryPlan contexts = (sections, contextBySectionID)"
        by (cases "prepareBookmarkContextSummaryPlan contexts")
      show ?thesis
      proof (cases "sections = []")
        case True
        then show ?thesis using nz r1 Inr pr by (simp add: runBookmarkContextSummaryPipeline_def Let_def)
      next
        case False
        define T where "T = max 1 (length sections + 1)"
        have T: "T = length sections + 1" "0 < T" by (simp_all add: T_def)
        obtain step ds reports2
          where dr: "draftSections (se_sectionRequest env) handler T contextBySectionID sections 0 []
                       (reportSummaryProgress handler 12 STAGE_CONTEXTS reports) = (step, ds, reports2)"
          by (cases "draftSections (se_sectionRequest env) handler T contextBySectionID sections 0 []
                       (reportSummaryProgress handler 12 STAGE_CONTEXTS reports)")
        have "reportedUpTo (max 0 (min 100 (24 + (72 * real (0::nat)) / real T)))
                (reportSummaryProgress handler 12 STAGE_CONTEXTS reports)"
          using r1 by (rule reportedUpTo_mono) simp
        note d = draftSections_reports[where sectionRequest = "se_sectionRequest env" and handler = handler
            and contextBySectionID = contextBySectionID and sections = sections
            and sectionDrafts = "[]", OF this T(2)]
        have both: "step = 0 + length sections \<and>
            reportedUpTo (max 0 (min 100 (24 + (72 * real step) / real T))) reports2"
          using d[unfolded dr prod.case] .
        have st: "step = length sections" using both by simp
        have up: "reportedUpTo (max 0 (min 100 (24 + (72 * real step) / real T))) reports2"
          using both by (rule conjunct2)
        have "(72 * real (step + 1)) / real T = 72"
          unfolding st T(1) by (simp add: field_simps)
        then have v: "24 + (72 * real (step + 1)) / real T = 96" by simp
        have le: "max 0 (min 100 (24 + (72 * real step) / real T)) \<le> 96"
          unfolding st T(1) by (auto simp: max_def min_def field_simps)
        have "reportedUpTo 96 reports2" using up le by (rule reportedUpTo_mono)
        then have "reportedUpTo 96 (reportSummaryProgress handler 96 STAGE_COMPOSE reports2)"
          by (rule reportedUpTo_const) simp_all
        moreover have "runBookmarkContextSummaryPipeline env handler attachmentID index reports =
            (Inr \<lparr>sr_answer = trim (composeSectionedSummary index sections ds),
                  sr_usedChunks = length (remdups (map chunk_id (concat (map sd_evidence ds))))\<rparr>,
             reportSummaryProgress handler (24 + (72 * real (step + 1)) / real T) STAGE_COMPOSE reports2)"
        proof -
          have TS: "Suc (length sections) = T" "1 + real (length sections) = real T"
            "max (Suc 0) T = T"
            by (simp_all add: T(1))
          show ?thesis
            unfolding runBookmarkContextSummaryPipeline_def Let_def
            using nz Inr pr False dr by (simp add: TS)
        qed
        ultimately show ?thesis
          using v composeSectionedSummary_nonblank[of index sections ds] by simp
      qed
    qed
  qed
qed

lemma singlePass_reports:
  assumes "reportedUpTo 45 reports"
  shows "reportedUpTo 75 (snd (summarizePaperSinglePass env handler run index reports))"
proof -
  have "reportedUpTo 55 (reportSummaryProgress handler 55 STAGE_SINGLE_CONTEXT reports)"
    using assms by (rule reportedUpTo_const) simp_all
  then have "reportedUpTo 75 (reportSummaryProgress handler 75 STAGE_SINGLE_REQUEST
               (reportSummaryProgress handler 55 STAGE_SINGLE_CONTEXT reports))"
    by (rule reportedUpTo_const) simp_all
  then show ?thesis
    by (simp add: summarizePaperSinglePass_def Let_def split: sum.splits)
qed

lemma singlePass_result:
  "se_singlePassRequest env run = Inr a \<Longrightarrow>
   \<exists>result. fst (summarizePaperSinglePass env handler run index reports) = Inr result"
  by (simp add: summarizePaperSinglePass_def Let_def)

lemma summaryAttempt_reports:
  assumes up: "reportedUpTo 8 reports" and ok: "se_singlePassRequest env 0 = Inr a"
  shows "\<exists>result reports'. summaryAttempt env handler attachment index reports = (Inr result, reports')
           \<and> reportedUpTo 96 reports'"
proof -
  define toc where "toc = (case attachment of
              None \<Rightarrow> (\<lparr>sr_answer = [], sr_usedChunks = 0\<rparr>, reports)
            | Some attachmentID \<Rightarrow>
                (case runBookmarkContextSummaryPipeline env handler attachmentID index reports of
                   (Inl tocError, reports1) \<Rightarrow> (\<lparr>sr_answer = [], sr_usedChunks = 0\<rparr>, reports1)
                 | (Inr tocResult, reports1) \<Rightarrow> (tocResult, reports1)))"
  have t: "reportedUpTo 96 (snd toc) \<and> (trim (sr_answer (fst toc)) = [] \<longrightarrow> reportedUpTo 12 (snd toc))"
  proof (cases attachment)
    case None
    then show ?thesis using up by (auto simp: toc_def intro: reportedUpTo_mono)
  next
    case (Some attachmentID)
    show ?thesis
      using pipeline_reports[OF up, of env handler attachmentID index] Some
      by (auto simp: toc_def split: sum.splits prod.splits intro: reportedUpTo_mono)
  qed
  have unfold: "summaryAttempt env handler attachment index reports =
      (if trim (sr_answer (fst toc)) = []
        then summarizePaperSinglePass env handler 0 index
               (reportSummaryProgress handler 45 STAGE_FALLBACK (snd toc))
        else (Inr (fst toc), snd toc))"
    unfolding summaryAttempt_def toc_def[symmetric] by (simp split: prod.splits)
  show ?thesis
  proof (cases "trim (sr_answer (fst toc)) = []")
    case True
    with t have "reportedUpTo 12 (snd toc)" by simp
    then have "reportedUpTo 45 (reportSummaryProgress handler 45 STAGE_FALLBACK (snd toc))"
      by (rule reportedUpTo_const) simp_all
    then have "reportedUpTo 75 (snd (summarizePaperSinglePass env handler 0 index
               (reportSummaryProgress handler 45 STAGE_FALLBACK (snd toc))))"
      by (rule singlePass_reports)
    then have "reportedUpTo 96 (snd (summarizePaperSinglePass env handler 0 index
               (reportSummaryProgress handler 45 STAGE_FALLBACK (snd toc))))"
      by (rule reportedUpTo_mono) simp
    moreover obtain result where "fst (summarizePaperSinglePass env handler 0 index
               (reportSummaryProgress handler 45 STAGE_FALLBACK (snd toc))) = Inr result"
      using singlePass_result[OF ok] by blast
    ultimately show ?thesis unfolding unfold using True by (auto simp: prod_eq_iff)
  next
    case False
    then show ?thesis unfolding unfold using t by simp
  qed
qed

text \<open>
  When the single pass of the \<open>try\<close> block does not fail, so that the \<open>catch\<close> clause
  of \<open>summarizePaper\<close> is not entered, the percentages reported are non-decreasing.
\<close>

lemma summarizePaper_sorted_without_retry:
  assumes "se_singlePassRequest env 0 = Inr a"
  shows "sorted (map sp_percent (snd (summarizePaper env handler)))"
proof -
  have r1: "reportedUpTo 3 (reportSummaryProgress handler 3 STAGE_LOADING [])"
    by (rule reportedUpTo_const[of 0]) (simp_all add: reportedUpTo_def)
  then have r2: "reportedUpTo 8 (reportSummaryProgress handler 8 STAGE_INDEX
                    (reportSummaryProgress handler 3 STAGE_LOADING []))"
    by (rule reportedUpTo_const) simp_all
  show ?thesis
  proof (cases "se_attachment env")
    case (Inl e)
    then show ?thesis using r1 by (simp add: summarizePaper_def Let_def reportedUpTo_def)
  next
    case at: (Inr attachment)
    show ?thesis
    proof (cases "se_index env")
      case (Inl e)
      then show ?thesis using r2 at by (simp add: summarizePaper_def Let_def reportedUpTo_def)
    next
      case (Inr index)
      obtain result reports' where
        sa: "summaryAttempt env handler attachment index
               (reportSummaryProgress handler 8 STAGE_INDEX
                    (reportSummaryProgress handler 3 STAGE_LOADING [])) = (Inr result, reports')"
        and up: "reportedUpTo 96 reports'"
        using summaryAttempt_reports[OF r2 assms] by blast
      have "reportedUpTo 100 (reportSummaryProgress handler 100 STAGE_DONE reports')"
        using up by (rule reportedUpTo_const) simp_all
      then show ?thesis
        using at Inr sa by (simp add: summarizePaper_def Let_def reportedUpTo_def)
    qed
  qed
qed

text \<open>
  Claim C8 fails on the code.  A paper without attachment whose first chat request fails
  and whose second one succeeds: the single pass of the \<open>try\<close> block reports 55 and 75
  and throws, the \<open>catch\<close> clause reports 45 again and runs the single pass once more.
  The handler receives 3, 8, 45, 55, 75, 45, 55, 75, 100, each with its stage label, and
  the request returns a summary.
\<close>

theorem summarizePaper_progress_regression:
  "map sp_percent (snd (summarizePaper exampleSummaryEnv True)) = [3, 8, 45, 55, 75, 45, 55, 75, 100] \<and>
   map sp_stage (snd (summarizePaper exampleSummaryEnv True)) =
     [STAGE_LOADING, STAGE_INDEX, STAGE_FALLBACK, STAGE_SINGLE_CONTEXT, STAGE_SINGLE_REQUEST,
      STAGE_FALLBACK, STAGE_SINGLE_CONTEXT, STAGE_SINGLE_REQUEST, STAGE_DONE] \<and>
   \<not> sorted (map sp_percent (snd (summarizePaper exampleSummaryEnv True))) \<and>
   (\<exists>result. fst (summarizePaper exampleSummaryEnv True) = Inr result)"
proof -
  have t: "trim [] = ([] :: jsstring)" by (simp add: trim_def)
  have run: "snd (summarizePaper exampleSummaryEnv True) =
      [\<lparr>sp_percent = 3, sp_stage = STAGE_LOADING\<rparr>, \<lparr>sp_percent = 8, sp_stage = STAGE_INDEX\<rparr>,
       \<lparr>sp_percent = 45, sp_stage = STAGE_FALLBACK\<rparr>, \<lparr>sp_percent = 55, sp_stage = STAGE_SINGLE_CONTEXT\<rparr>,
       \<lparr>sp_percent = 75, sp_stage = STAGE_SINGLE_REQUEST\<rparr>,
       \<lparr>sp_percent = 45, sp_stage = STAGE_FALLBACK\<rparr>, \<lparr>sp_percent = 55, sp_stage = STAGE_SINGLE_CONTEXT\<rparr>,
       \<lparr>sp_percent = 75, sp_stage = STAGE_SINGLE_REQUEST\<rparr>, \<lparr>sp_percent = 100, sp_stage = STAGE_DONE\<rparr>]"
    and res: "\<exists>result. fst (summarizePaper exampleSummaryEnv True) = Inr result"
    by (simp_all add: summarizePaper_def summaryAttempt_def summarizePaperSinglePass_def
        reportSummaryProgress_def exampleSummaryEnv_def Let_def t)
  show ?thesis unfolding run using res by simp
qed

end
